theory Spec2Isabelle
  imports Complex_Main
begin

section \<open>Data model\<close>

text \<open>
  The TypeScript interface \<^verbatim>\<open>Complex { r: number; i: number }\<close>. A JavaScript
  \<^verbatim>\<open>number\<close> is modelled as a real: the arithmetic is exact, without rounding,
  NaN or infinities. Everything proved below is about this real-valued reading of the
  code: lengths, unset slots and exceptions are those of the program, computed values
  are those of the program up to the rounding of IEEE double arithmetic. A division by zero, which JavaScript answers with NaN or an infinity and HOL
  with 0, lies outside it: a theorem about a value computed by a division assumes that
  the divisor is not zero.
\<close>

record Complex =
  r :: real
  i :: real

text \<open>
  The only exception the source can raise is the JavaScript runtime \<^verbatim>\<open>TypeError\<close>
  of reading a property of \<^verbatim>\<open>undefined\<close> (an array read past the end or at an
  unset slot). \<open>NotANumber\<close> is not an exception: it marks a run that goes on with
  NaN samples, which a real cannot hold. \<open>InvalidLength\<close>, \<open>MismatchedLength\<close> and
  \<open>InvalidParameter\<close> are the error kinds of the specification; no function of the
  source constructs them.
\<close>

datatype error = TypeError | NotANumber | InvalidLength | MismatchedLength | InvalidParameter

text \<open>
  A JavaScript array whose slots may be unset: \<^verbatim>\<open>new Array<Complex>(N)\<close> has \<open>N\<close>
  unset slots (\<open>None\<close>), and reading an unset slot or an index past the end gives
  \<^verbatim>\<open>undefined\<close>.
\<close>

type_synonym slots = "Complex option list"

definition slot_at :: "'a option list \<Rightarrow> nat \<Rightarrow> 'a option" where
  "slot_at xs k = (if k < length xs then xs ! k else None)"

text \<open>
  The assignment \<^verbatim>\<open>results[x] = v\<close> for a number \<open>x\<close>. When \<open>x\<close> is a
  non-negative integer the slot is written (the array grows when \<open>x\<close> is past the end);
  any other key is stored as an ordinary property and leaves every slot as it was.
\<close>

definition set_slot :: "'a option list \<Rightarrow> real \<Rightarrow> 'a \<Rightarrow> 'a option list" where
  "set_slot xs x v =
     (if 0 \<le> x \<and> x = of_int \<lfloor>x\<rfloor> then
        (let j = nat \<lfloor>x\<rfloor> in
         if j < length xs then xs[j := Some v]
         else xs @ replicate (j - length xs) None @ [Some v])
      else xs)"

section \<open>Wave generation\<close>

text \<open>
  \<^verbatim>\<open>generateSineWave\<close> (identical in both versions of the application):
  \<^verbatim>\<open>Array.from({ length: numPoints }, (_, index) => ...)\<close>. \<open>numPoints\<close> is a sample
  count, a natural number.
\<close>

definition generateSineWave :: "nat \<Rightarrow> real \<Rightarrow> real \<Rightarrow> real \<Rightarrow> real \<Rightarrow> Complex list" where
  "generateSineWave numPoints freq amp decay phase =
     map (\<lambda>index.
            let angle = (real index / real numPoints) * freq * pi * 2 + (phase * pi) / 180;
                amplitude = sin angle * amp * exp (- decay * real index)
            in \<lparr>r = amplitude, i = 0\<rparr>)
         [0..<numPoints]"

section \<open>Frequency projection\<close>

text \<open>
  \<^verbatim>\<open>calculateDFTForFrequency\<close> (identical in both versions). The loop runs \<open>n\<close> from
  0 while \<open>n < numPoints\<close> and pushes one sample per round; \<^verbatim>\<open>data[n].r\<close> with
  \<open>n\<close> past the end of \<open>data\<close> raises the TypeError.
\<close>

function calculateDFTForFrequency_loop ::
  "Complex list \<Rightarrow> real \<Rightarrow> nat \<Rightarrow> nat \<Rightarrow> Complex list \<Rightarrow> error + Complex list" where
  "calculateDFTForFrequency_loop data freqRad numPoints n dftResults =
     (if n < numPoints then
        (if n < length data then
           (let angle = freqRad * real n;
                realPart = r (data ! n) * cos angle - i (data ! n) * sin angle;
                imagPart = i (data ! n) * cos angle + r (data ! n) * sin angle
            in calculateDFTForFrequency_loop data freqRad numPoints (n + 1)
                 (dftResults @ [\<lparr>r = realPart, i = imagPart\<rparr>]))
         else Inl TypeError)
      else Inr dftResults)"
  by pat_completeness auto
termination
  by (relation "measure (\<lambda>(data, freqRad, numPoints, n, dftResults). numPoints - n)") auto

declare calculateDFTForFrequency_loop.simps [simp del]

definition calculateDFTForFrequency ::
  "Complex list \<Rightarrow> real \<Rightarrow> nat \<Rightarrow> real \<Rightarrow> error + Complex list" where
  "calculateDFTForFrequency data targetFrequency numPoints samplingRate =
     (let twoPi = 2 * pi;
          freqRad = (twoPi * targetFrequency) / samplingRate
      in calculateDFTForFrequency_loop data freqRad numPoints 0 [])"

section \<open>Wave composition\<close>





section \<open>Centroid\<close>

text \<open>
  The centroid computed in the effect hook of \<^verbatim>\<open>App\<close>: \<^verbatim>\<open>dftResults.reduce\<close> with
  the initial value \<^verbatim>\<open>{ r: 0, i: 0 }\<close>, then a division by \<^verbatim>\<open>dftResults.length\<close>.
  The current version multiplies by 2; the backup version does not. (On an empty
  trajectory JavaScript computes 0/0, NaN, where HOL's division gives 0: the theorems
  below are about non-empty trajectories.)
\<close>

definition total :: "Complex list \<Rightarrow> Complex" where
  "total dftResults =
     foldl (\<lambda>acc point. \<lparr>r = r acc + r point, i = i acc + i point\<rparr>) \<lparr>r = 0, i = 0\<rparr> dftResults"

definition centroid :: "Complex list \<Rightarrow> Complex" where
  "centroid dftResults =
     \<lparr>r = (r (total dftResults) / real (length dftResults)) * 2,
      i = (i (total dftResults) / real (length dftResults)) * 2\<rparr>"

definition centroid_buckup :: "Complex list \<Rightarrow> Complex" where
  "centroid_buckup dftResults =
     \<lparr>r = r (total dftResults) / real (length dftResults),
      i = i (total dftResults) / real (length dftResults)\<rparr>"

section \<open>The recursive transform\<close>

text \<open>
  \<^verbatim>\<open>data.filter((_, i) => p(i))\<close>: the elements at the indices that satisfy \<open>p\<close>,
  in order.
\<close>

definition filter_index :: "(nat \<Rightarrow> bool) \<Rightarrow> 'a list \<Rightarrow> 'a list" where
  "filter_index p data = map (\<lambda>j. data ! j) (filter p [0..<length data])"

text \<open>
  The butterfly loop \<^verbatim>\<open>for (let k = 0; k < half; k++)\<close>, the same text in both
  versions. \<open>half\<close> is a number: an integer in the backup version
  (\<^verbatim>\<open>Math.floor(N / 2)\<close>), possibly a half-integer in the current one (\<^verbatim>\<open>N / 2\<close>).
  \<^verbatim>\<open>odd[k].r\<close> is read first and \<^verbatim>\<open>even[k].r\<close> after it; either raises the
  TypeError on an unset or missing slot.
\<close>

function fft_loop ::
  "real \<Rightarrow> nat \<Rightarrow> slots \<Rightarrow> slots \<Rightarrow> nat \<Rightarrow> slots \<Rightarrow> error + slots" where
  "fft_loop half N even' odd' k results =
     (if real k < half then
        (case slot_at odd' k of
           None \<Rightarrow> Inl TypeError
         | Some ok \<Rightarrow>
             (case slot_at even' k of
                None \<Rightarrow> Inl TypeError
              | Some ek \<Rightarrow>
                  (let a = - 2 * pi;
                       exp' = \<lparr>r = cos ((a * real k) / real N), i = sin ((a * real k) / real N)\<rparr>;
                       temp = \<lparr>r = r exp' * r ok - i exp' * i ok,
                               i = i exp' * r ok + r exp' * i ok\<rparr>;
                       results1 = set_slot results (real k)
                                    \<lparr>r = r ek + r temp, i = i ek + i temp\<rparr>;
                       results2 = set_slot results1 (real k + half)
                                    \<lparr>r = r ek - r temp, i = i ek - i temp\<rparr>
                   in fft_loop half N even' odd' (k + 1) results2)))
      else Inr results)"
  by pat_completeness auto
termination
proof (relation "measure (\<lambda>(half, N, even', odd', k, results). nat \<lceil>half\<rceil> - k)")
  show "wf (measure (\<lambda>(half :: real, N :: nat, even' :: slots, odd' :: slots, k :: nat,
          results :: slots). nat \<lceil>half\<rceil> - k))"
    by simp
next
  fix half :: real and N :: nat and even' odd' results results1 results2 :: slots
    and k :: nat and a :: real and ok ek exp' temp :: Complex
  assume "real k < half"
  then have "int k < \<lceil>half\<rceil>" by (simp add: less_ceiling_iff)
  then have "k < nat \<lceil>half\<rceil>" by linarith
  then show "((half, N, even', odd', k + 1, results2), (half, N, even', odd', k, results))
      \<in> measure (\<lambda>(half, N, even', odd', k, results). nat \<lceil>half\<rceil> - k)"
    by simp
qed

declare fft_loop.simps [simp del]

text \<open>
  \<^verbatim>\<open>fft\<close> of the current version: \<^verbatim>\<open>half = N / 2\<close>. An input of length at most 1
  is returned as it is.
\<close>

function fft :: "Complex list \<Rightarrow> error + slots" where
  "fft data =
     (let N = length data in
      if N \<le> 1 then Inr (map Some data)
      else
        (let half = real N / 2 in
         case fft (filter_index (\<lambda>j. j mod 2 = 0) data) of
           Inl e \<Rightarrow> Inl e
         | Inr even' \<Rightarrow>
             (case fft (filter_index (\<lambda>j. j mod 2 \<noteq> 0) data) of
                Inl e \<Rightarrow> Inl e
              | Inr odd' \<Rightarrow> fft_loop half N even' odd' 0 (replicate N None))))"
  by pat_completeness auto
termination
proof (relation "measure length")
  show "wf (measure (length :: Complex list \<Rightarrow> nat))" by simp
next
  fix data :: "Complex list" and N
  assume "N = length data" "\<not> N \<le> 1"
  then have "1 \<in> set [0..<length data]" by simp
  then have "length (filter (\<lambda>j. j mod 2 = 0) [0..<length data]) < length [0..<length data]"
    by (rule length_filter_less) simp
  then show "(filter_index (\<lambda>j. j mod 2 = 0) data, data) \<in> measure length"
    by (simp add: filter_index_def)
next
  fix data :: "Complex list" and N
  assume "N = length data" "\<not> N \<le> 1"
  then have "0 \<in> set [0..<length data]" by (cases data) simp_all
  then have "length (filter (\<lambda>j. j mod 2 \<noteq> 0) [0..<length data]) < length [0..<length data]"
    by (rule length_filter_less) simp
  then show "(filter_index (\<lambda>j. j mod 2 \<noteq> 0) data, data) \<in> measure length"
    by (simp add: filter_index_def)
qed

declare fft.simps [simp del]

text \<open>
  \<^verbatim>\<open>fft\<close> of the backup version: \<^verbatim>\<open>half = Math.floor(N / 2)\<close>, the rest is the
  same text.
\<close>

function fft_buckup :: "Complex list \<Rightarrow> error + slots" where
  "fft_buckup data =
     (let N = length data in
      if N \<le> 1 then Inr (map Some data)
      else
        (let half = of_int \<lfloor>real N / 2\<rfloor> in
         case fft_buckup (filter_index (\<lambda>j. j mod 2 = 0) data) of
           Inl e \<Rightarrow> Inl e
         | Inr even' \<Rightarrow>
             (case fft_buckup (filter_index (\<lambda>j. j mod 2 \<noteq> 0) data) of
                Inl e \<Rightarrow> Inl e
              | Inr odd' \<Rightarrow> fft_loop half N even' odd' 0 (replicate N None))))"
  by pat_completeness auto
termination
proof (relation "measure length")
  show "wf (measure (length :: Complex list \<Rightarrow> nat))" by simp
next
  fix data :: "Complex list" and N
  assume "N = length data" "\<not> N \<le> 1"
  then have "1 \<in> set [0..<length data]" by simp
  then have "length (filter (\<lambda>j. j mod 2 = 0) [0..<length data]) < length [0..<length data]"
    by (rule length_filter_less) simp
  then show "(filter_index (\<lambda>j. j mod 2 = 0) data, data) \<in> measure length"
    by (simp add: filter_index_def)
next
  fix data :: "Complex list" and N
  assume "N = length data" "\<not> N \<le> 1"
  then have "0 \<in> set [0..<length data]" by (cases data) simp_all
  then have "length (filter (\<lambda>j. j mod 2 \<noteq> 0) [0..<length data]) < length [0..<length data]"
    by (rule length_filter_less) simp
  then show "(filter_index (\<lambda>j. j mod 2 \<noteq> 0) data, data) \<in> measure length"
    by (simp add: filter_index_def)
qed

declare fft_buckup.simps [simp del]

section \<open>Notions used to state the properties\<close>

text \<open>
  The two values that one round of the butterfly loop writes, at \<open>k\<close> and at
  \<open>k + half\<close>, from \<open>even[k]\<close> and \<open>odd[k]\<close>.
\<close>

definition butterfly_top :: "nat \<Rightarrow> nat \<Rightarrow> Complex \<Rightarrow> Complex \<Rightarrow> Complex" where
  "butterfly_top N k ek ok =
     \<lparr>r = r ek + (cos ((- 2 * pi * real k) / real N) * r ok - sin ((- 2 * pi * real k) / real N) * i ok),
      i = i ek + (sin ((- 2 * pi * real k) / real N) * r ok + cos ((- 2 * pi * real k) / real N) * i ok)\<rparr>"

definition butterfly_bottom :: "nat \<Rightarrow> nat \<Rightarrow> Complex \<Rightarrow> Complex \<Rightarrow> Complex" where
  "butterfly_bottom N k ek ok =
     \<lparr>r = r ek - (cos ((- 2 * pi * real k) / real N) * r ok - sin ((- 2 * pi * real k) / real N) * i ok),
      i = i ek - (sin ((- 2 * pi * real k) / real N) * r ok + cos ((- 2 * pi * real k) / real N) * i ok)\<rparr>"

text \<open>
  The coefficients for a length \<open>2 \<sqdot> M\<close> from the coefficients \<open>es\<close> and \<open>os\<close> of the
  even-indexed and the odd-indexed half.
\<close>

definition butterflies :: "nat \<Rightarrow> Complex list \<Rightarrow> Complex list \<Rightarrow> Complex list" where
  "butterflies M es os =
     map (\<lambda>j. butterfly_top (2 * M) j (es ! j) (os ! j)) [0..<M] @
     map (\<lambda>j. butterfly_bottom (2 * M) j (es ! j) (os ! j)) [0..<M]"

text \<open>The complex conjugate.\<close>

definition cconj :: "Complex \<Rightarrow> Complex" where
  "cconj c = \<lparr>r = r c, i = - i c\<rparr>"

text \<open>
  The elementwise sum of two signals, of two result arrays and of two outcomes of the
  transform. A slot that is unset in either array is unset in the sum, as
  \<^verbatim>\<open>Array.prototype.map\<close> keeps unset slots; an outcome that is an exception makes the
  sum that exception.
\<close>

definition cadd :: "Complex \<Rightarrow> Complex \<Rightarrow> Complex" where
  "cadd x y = \<lparr>r = r x + r y, i = i x + i y\<rparr>"

definition signal_add :: "Complex list \<Rightarrow> Complex list \<Rightarrow> Complex list" where
  "signal_add a b = map2 cadd a b"

fun slot_add :: "Complex option \<Rightarrow> Complex option \<Rightarrow> Complex option" where
  "slot_add (Some x) (Some y) = Some (cadd x y)"
| "slot_add _ _ = None"

definition result_add :: "error + slots \<Rightarrow> error + slots \<Rightarrow> error + slots" where
  "result_add ra rb =
     (case ra of
        Inl e \<Rightarrow> Inl e
      | Inr xs \<Rightarrow> (case rb of Inl e \<Rightarrow> Inl e | Inr ys \<Rightarrow> Inr (map2 slot_add xs ys)))"

section \<open>Properties of the frequency projection loop\<close>

lemma dft_loop_ok:
  "numPoints \<le> length data \<Longrightarrow> n \<le> numPoints \<Longrightarrow>
   calculateDFTForFrequency_loop data freqRad numPoints n acc =
     Inr (acc @ map (\<lambda>n. \<lparr>r = r (data ! n) * cos (freqRad * real n) - i (data ! n) * sin (freqRad * real n),
                          i = i (data ! n) * cos (freqRad * real n) + r (data ! n) * sin (freqRad * real n)\<rparr>)
                    [n..<numPoints])"
proof (induction data freqRad numPoints n acc rule: calculateDFTForFrequency_loop.induct)
  case (1 data freqRad numPoints n dftResults)
  show ?case
  proof (cases "n < numPoints")
    case True
    with "1.prems" have inb: "n < length data" by simp
    from True have split: "[n..<numPoints] = n # [Suc n..<numPoints]"
      by (simp add: upt_conv_Cons)
    show ?thesis
      using "1.IH"[OF True inb refl refl refl] "1.prems" True inb
      by (subst calculateDFTForFrequency_loop.simps) (simp add: split Let_def)
  next
    case False
    with "1.prems" show ?thesis
      by (subst calculateDFTForFrequency_loop.simps) simp
  qed
qed

lemma dft_loop_err:
  "length data < numPoints \<Longrightarrow> n \<le> length data \<Longrightarrow>
   calculateDFTForFrequency_loop data freqRad numPoints n acc = Inl TypeError"
proof (induction data freqRad numPoints n acc rule: calculateDFTForFrequency_loop.induct)
  case (1 data freqRad numPoints n dftResults)
  from "1.prems" have lt: "n < numPoints" by simp
  show ?case
  proof (cases "n < length data")
    case True
    show ?thesis
      using "1.IH"[OF lt True refl refl refl] "1.prems" True lt
      by (subst calculateDFTForFrequency_loop.simps) (simp add: Let_def)
  next
    case False
    with lt show ?thesis
      by (subst calculateDFTForFrequency_loop.simps) simp
  qed
qed

section \<open>Properties of the composition and of the centroid\<close>




lemma total_eq:
  "foldl (\<lambda>acc point. \<lparr>r = r acc + r point, i = i acc + i point\<rparr>) acc xs =
     \<lparr>r = r acc + sum_list (map r xs), i = i acc + sum_list (map i xs)\<rparr>"
  by (induction xs arbitrary: acc) (simp_all add: add.assoc)

lemma total_sum: "total xs = \<lparr>r = sum_list (map r xs), i = sum_list (map i xs)\<rparr>"
  by (simp add: total_def total_eq)


section \<open>Properties of the butterfly loop\<close>

lemma length_filter_index_even:
  "length (filter_index (\<lambda>j. j mod 2 = 0) data) = (length data + 1) div 2"
proof -
  have "length (filter (\<lambda>j. j mod 2 = 0) [0..<n]) = (n + 1) div 2" for n :: nat
    by (induction n) (auto, presburger+)
  then show ?thesis by (simp add: filter_index_def)
qed

lemma length_filter_index_odd:
  "length (filter_index (\<lambda>j. j mod 2 \<noteq> 0) data) = length data div 2"
proof -
  have "length (filter (\<lambda>j. j mod 2 \<noteq> 0) [0..<n]) = n div 2" for n :: nat
    by (induction n) (auto, presburger+)
  then show ?thesis by (simp add: filter_index_def)
qed

lemma set_filter_index: "set (filter_index p data) \<subseteq> set data"
  by (auto simp: filter_index_def)

lemma set_slot_index:
  "j < length xs \<Longrightarrow> set_slot xs (real j) v = xs[j := Some v]"
  by (simp add: set_slot_def)

lemma set_slot_index_plus:
  "k + M < length xs \<Longrightarrow> set_slot xs (real k + real M) v = xs[k + M := Some v]"
  using set_slot_index[of "k + M" xs v] by simp

lemma set_slot_length:
  "x < real (length xs) \<Longrightarrow> length (set_slot xs x v) = length xs"
  by (auto simp: set_slot_def Let_def)

lemma set_slot_other:
  "x < real (length xs) \<Longrightarrow> j < length xs \<Longrightarrow> real j \<noteq> x \<Longrightarrow> set_slot xs x v ! j = xs ! j"
proof (cases "0 \<le> x \<and> x = of_int \<lfloor>x\<rfloor>")
  case True
  assume a: "x < real (length xs)" "j < length xs" "real j \<noteq> x"
  from True a(1) have lt: "nat \<lfloor>x\<rfloor> < length xs" by linarith
  from True a(3) have "j \<noteq> nat \<lfloor>x\<rfloor>"
    by (metis of_int_of_nat_eq of_nat_nat zero_le_floor)
  with True lt show ?thesis by (simp add: set_slot_def)
next
  case False
  then show ?thesis by (auto simp: set_slot_def)
qed

lemma fft_loop_stop:
  "\<not> real k < half \<Longrightarrow> fft_loop half N even' odd' k results = Inr results"
  by (subst fft_loop.simps) simp

lemma fft_loop_odd_unset:
  "real k < half \<Longrightarrow> slot_at odd' k = None \<Longrightarrow>
   fft_loop half N even' odd' k results = Inl TypeError"
  by (subst fft_loop.simps) simp

lemma fft_loop_even_unset:
  "real k < half \<Longrightarrow> slot_at even' k = None \<Longrightarrow>
   fft_loop half N even' odd' k results = Inl TypeError"
  by (subst fft_loop.simps) (simp split: option.splits)

lemma fft_loop_step:
  "real k < half \<Longrightarrow> slot_at odd' k = Some ok \<Longrightarrow> slot_at even' k = Some ek \<Longrightarrow>
   fft_loop half N even' odd' k results =
     fft_loop half N even' odd' (Suc k)
       (set_slot (set_slot results (real k) (butterfly_top N k ek ok)) (real k + half)
          (butterfly_bottom N k ek ok))"
  by (subst fft_loop.simps) (simp add: Let_def butterfly_top_def butterfly_bottom_def)

lemma fft_loop_rounds [case_names stop unset step]:
  assumes stop: "\<And>k results. \<not> real k < half \<Longrightarrow> P k results"
    and unset: "\<And>k results. real k < half \<Longrightarrow> slot_at odd' k = None \<or> slot_at even' k = None \<Longrightarrow>
                  P k results"
    and step: "\<And>k results ok ek. real k < half \<Longrightarrow> slot_at odd' k = Some ok \<Longrightarrow>
                  slot_at even' k = Some ek \<Longrightarrow>
                  P (Suc k) (set_slot (set_slot results (real k) (butterfly_top N k ek ok))
                               (real k + half) (butterfly_bottom N k ek ok)) \<Longrightarrow>
                  P k results"
  shows "P k results"
proof -
  have "\<forall>results. P k results"
  proof (induction "nat \<lceil>half\<rceil> - k" arbitrary: k)
    case 0
    have "\<not> real k < half"
    proof
      assume "real k < half"
      then have "int k < \<lceil>half\<rceil>" by (simp add: less_ceiling_iff)
      with "0.hyps" show False by linarith
    qed
    then show ?case using stop by blast
  next
    case (Suc n)
    show ?case
    proof (intro allI)
      fix results
      show "P k results"
      proof (cases "real k < half")
        case False
        then show ?thesis by (rule stop)
      next
        case True
        show ?thesis
        proof (cases "slot_at odd' k = None \<or> slot_at even' k = None")
          case True
          with \<open>real k < half\<close> show ?thesis by (rule unset)
        next
          case False
          then obtain ok ek where s: "slot_at odd' k = Some ok" "slot_at even' k = Some ek"
            by auto
          have "n = nat \<lceil>half\<rceil> - Suc k" using Suc.hyps(2) by simp
          then have "\<forall>results. P (Suc k) results" by (rule Suc.hyps(1))
          then have "P (Suc k) (set_slot (set_slot results (real k) (butterfly_top N k ek ok))
                                   (real k + half) (butterfly_bottom N k ek ok))"
            by blast
          with True s show ?thesis by (rule step)
        qed
      qed
    qed
  qed
  then show ?thesis by blast
qed

lemma fft_loop_unset:
  "real k < half \<Longrightarrow> slot_at odd' k = None \<or> slot_at even' k = None \<Longrightarrow>
   fft_loop half N even' odd' k results = Inl TypeError"
  using fft_loop_odd_unset fft_loop_even_unset by blast

lemma fft_loop_error:
  "fft_loop half N even' odd' k results = Inl e \<Longrightarrow> e = TypeError"
proof (induction k results rule: fft_loop_rounds[where half = half and odd' = odd' and even' = even' and N = N])
  case (stop k results)
  then show ?case by (simp add: fft_loop_stop)
next
  case (unset k results)
  then show ?case by (simp add: fft_loop_unset)
next
  case (step k results ok ek)
  then show ?case by (simp add: fft_loop_step)
qed

text \<open>The loop writes below \<open>2 \<sqdot> half\<close> only and keeps the length.\<close>

lemma fft_loop_frame:
  assumes "2 * half \<le> real N"
  shows "fft_loop half N even' odd' k results = Inr ys \<Longrightarrow> length results = N \<Longrightarrow>
         length ys = N \<and> (\<forall>j<N. 2 * half \<le> real j \<longrightarrow> ys ! j = results ! j)"
proof (induction k results rule: fft_loop_rounds[where half = half and odd' = odd' and even' = even' and N = N])
  case (stop k results)
  then show ?case by (simp add: fft_loop_stop)
next
  case (unset k results)
  then show ?case by (simp add: fft_loop_unset)
next
  case (step k results ok ek)
  let ?r1 = "set_slot results (real k) (butterfly_top N k ek ok)"
  let ?r2 = "set_slot ?r1 (real k + half) (butterfly_bottom N k ek ok)"
  from step.hyps(1) assms have kN: "real k < real N" and khN: "real k + half < real N" by linarith+
  have l1: "length ?r1 = N" using kN step.prems(2) by (simp add: set_slot_length)
  then have l2: "length ?r2 = N" using khN by (simp add: set_slot_length)
  have run: "fft_loop half N even' odd' (Suc k) ?r2 = Inr ys"
    using step.prems(1) step.hyps by (simp add: fft_loop_step)
  from step.IH[OF run l2] have len: "length ys = N"
    and keep: "\<forall>j<N. 2 * half \<le> real j \<longrightarrow> ys ! j = ?r2 ! j" by simp_all
  have "ys ! j = results ! j" if "j < N" "2 * half \<le> real j" for j
  proof -
    from that step.hyps(1) have ne: "real j \<noteq> real k" "real j \<noteq> real k + half" by linarith+
    have "ys ! j = ?r2 ! j" using keep that by simp
    also have "\<dots> = ?r1 ! j" using khN l1 that(1) ne(2) by (simp add: set_slot_other)
    also have "\<dots> = results ! j" using kN step.prems(2) that(1) ne(1) by (simp add: set_slot_other)
    finally show ?thesis .
  qed
  with len show ?case by simp
qed

text \<open>An unset slot ahead of the counter is reached, unless the loop fails before.\<close>

lemma fft_loop_reaches_unset:
  assumes "real k' < half" and "slot_at odd' k' = None \<or> slot_at even' k' = None"
  shows "k \<le> k' \<Longrightarrow> fft_loop half N even' odd' k results = Inl TypeError"
proof (induction k results rule: fft_loop_rounds[where half = half and odd' = odd' and even' = even' and N = N])
  case (stop k results)
  with assms(1) show ?case by linarith
next
  case (unset k results)
  then show ?case by (simp add: fft_loop_unset)
next
  case (step k results ok ek)
  from step.hyps(2,3) assms(2) have "k \<noteq> k'" by auto
  with step.prems have "Suc k \<le> k'" by simp
  with step.IH step.hyps show ?case by (simp add: fft_loop_step)
qed

section \<open>Properties of the transform\<close>

lemma fft_small: "length data \<le> 1 \<Longrightarrow> fft data = Inr (map Some data)"
  by (subst fft.simps) simp

lemma fft_rec:
  "\<not> length data \<le> 1 \<Longrightarrow>
   fft data =
     (case fft (filter_index (\<lambda>j. j mod 2 = 0) data) of
        Inl e \<Rightarrow> Inl e
      | Inr even' \<Rightarrow>
          (case fft (filter_index (\<lambda>j. j mod 2 \<noteq> 0) data) of
             Inl e \<Rightarrow> Inl e
           | Inr odd' \<Rightarrow>
               fft_loop (real (length data) / 2) (length data) even' odd' 0
                 (replicate (length data) None)))"
  by (subst fft.simps) (simp add: Let_def)

lemma fft_buckup_small: "length data \<le> 1 \<Longrightarrow> fft_buckup data = Inr (map Some data)"
  by (subst fft_buckup.simps) simp

lemma floor_half: "\<lfloor>real n / 2\<rfloor> = int (n div 2)"
  by (simp add: floor_divide_of_nat_eq [of n 2, simplified])

lemma fft_buckup_rec:
  "\<not> length data \<le> 1 \<Longrightarrow>
   fft_buckup data =
     (case fft_buckup (filter_index (\<lambda>j. j mod 2 = 0) data) of
        Inl e \<Rightarrow> Inl e
      | Inr even' \<Rightarrow>
          (case fft_buckup (filter_index (\<lambda>j. j mod 2 \<noteq> 0) data) of
             Inl e \<Rightarrow> Inl e
           | Inr odd' \<Rightarrow>
               fft_loop (real (length data div 2)) (length data) even' odd' 0
                 (replicate (length data) None)))"
  by (subst fft_buckup.simps) (simp add: Let_def floor_half)

lemma fft_error: "fft data = Inl e \<Longrightarrow> e = TypeError"
proof (induction data rule: length_induct)
  case (1 data)
  show ?case
  proof (cases "length data \<le> 1")
    case True
    with "1.prems" show ?thesis by (simp add: fft_small)
  next
    case False
    then have lt: "length (filter_index (\<lambda>j. j mod 2 = 0) data) < length data"
      "length (filter_index (\<lambda>j. j mod 2 \<noteq> 0) data) < length data"
      unfolding length_filter_index_even length_filter_index_odd by linarith+
    from "1.prems" False "1.IH" lt show ?thesis
      by (auto simp: fft_rec split: sum.splits dest: fft_loop_error)
  qed
qed

lemma fft_buckup_error: "fft_buckup data = Inl e \<Longrightarrow> e = TypeError"
proof (induction data rule: length_induct)
  case (1 data)
  show ?case
  proof (cases "length data \<le> 1")
    case True
    with "1.prems" show ?thesis by (simp add: fft_buckup_small)
  next
    case False
    then have lt: "length (filter_index (\<lambda>j. j mod 2 = 0) data) < length data"
      "length (filter_index (\<lambda>j. j mod 2 \<noteq> 0) data) < length data"
      unfolding length_filter_index_even length_filter_index_odd by linarith+
    from "1.prems" False "1.IH" lt show ?thesis
      by (auto simp: fft_buckup_rec split: sum.splits dest: fft_loop_error)
  qed
qed

lemma fft_length: "fft data = Inr ys \<Longrightarrow> length ys = length data"
proof (cases "length data \<le> 1")
  case True
  assume "fft data = Inr ys"
  with True show ?thesis by (auto simp: fft_small)
next
  case False
  assume "fft data = Inr ys"
  with False obtain even' odd' where
    "fft_loop (real (length data) / 2) (length data) even' odd' 0 (replicate (length data) None) = Inr ys"
    by (auto simp: fft_rec split: sum.splits)
  then show ?thesis
    using fft_loop_frame[of "real (length data) / 2" "length data" even' odd' 0
        "replicate (length data) None" ys]
    by simp
qed

lemma fft_buckup_length: "fft_buckup data = Inr ys \<Longrightarrow> length ys = length data"
proof (cases "length data \<le> 1")
  case True
  assume "fft_buckup data = Inr ys"
  with True show ?thesis by (auto simp: fft_buckup_small)
next
  case False
  assume "fft_buckup data = Inr ys"
  with False obtain even' odd' where
    "fft_loop (real (length data div 2)) (length data) even' odd' 0 (replicate (length data) None) = Inr ys"
    by (auto simp: fft_buckup_rec split: sum.splits)
  moreover have "2 * real (length data div 2) \<le> real (length data)"
    by (metis mult.commute of_nat_le_iff of_nat_mult of_nat_numeral div_times_less_eq_dividend)
  ultimately show ?thesis
    using fft_loop_frame[of "real (length data div 2)" "length data" even' odd' 0
        "replicate (length data) None" ys]
    by simp
qed

lemma odd_multiple_not_power:
  fixes q a m :: nat
  assumes "odd q" and "1 < q"
  shows "q * 2 ^ a \<noteq> 2 ^ m"
proof
  assume eq: "q * 2 ^ a = 2 ^ m"
  show False
  proof (cases "a \<le> m")
    case True
    then have "(2::nat) ^ m = 2 ^ (m - a) * 2 ^ a" by (simp flip: power_add)
    with eq have "q = 2 ^ (m - a)" by simp
    with assms show False by (cases "m - a") simp_all
  next
    case False
    then have "(2::nat) ^ a = 2 ^ (a - m) * 2 ^ m" by (simp flip: power_add)
    with eq have "q * 2 ^ (a - m) * 2 ^ m = 1 * 2 ^ m" by (simp add: mult.assoc)
    then have "q * 2 ^ (a - m) = 1" by (simp del: mult_1 mult_1_left)
    with assms show False by simp
  qed
qed

lemma half_not_power:
  fixes M :: nat
  assumes "\<forall>m. 2 * M \<noteq> 2 ^ m"
  shows "\<forall>m. M \<noteq> 2 ^ m"
proof
  fix m
  from assms have "2 * M \<noteq> 2 ^ Suc m" by blast
  then show "M \<noteq> 2 ^ m" by simp
qed

text \<open>The current version on a length that is not a power of two.\<close>

lemma fft_not_power:
  "0 < length data \<Longrightarrow> \<forall>m. length data \<noteq> 2 ^ m \<Longrightarrow> fft data = Inl TypeError"
proof (induction data rule: length_induct)
  case (1 data)
  let ?N = "length data"
  let ?ev = "filter_index (\<lambda>j. j mod 2 = 0) data"
  let ?od = "filter_index (\<lambda>j. j mod 2 \<noteq> 0) data"
  from "1.prems" have "?N \<noteq> 2 ^ 0" by blast
  then have "?N \<noteq> 1" by simp
  with "1.prems"(1) have big: "\<not> ?N \<le> 1" by linarith
  show ?case
  proof (cases "even ?N")
    case True
    then obtain M where M: "?N = 2 * M" by (auto elim: evenE)
    then have lev: "length ?ev = M" by (simp add: length_filter_index_even)
    have "\<forall>m. M \<noteq> 2 ^ m" using "1.prems"(2) M half_not_power by simp
    moreover have "0 < M" "M < ?N" using M big by simp_all
    ultimately have a: "length ?ev < length data" "0 < length ?ev" "\<forall>m. length ?ev \<noteq> 2 ^ m"
      using lev by simp_all
    have "fft ?ev = Inl TypeError" by (rule "1.IH"[rule_format, OF a(1) a(2) a(3)[rule_format]])
    then show ?thesis using big by (simp add: fft_rec)
  next
    case False
    show ?thesis
    proof (cases "fft ?ev")
      case (Inl e)
      then show ?thesis using big fft_error[OF Inl] by (simp add: fft_rec)
    next
      case ev: (Inr even')
      show ?thesis
      proof (cases "fft ?od")
        case (Inl e)
        then show ?thesis using big ev fft_error[OF Inl] by (simp add: fft_rec)
      next
        case od: (Inr odd')
        have "length odd' = ?N div 2"
          using fft_length[OF od] unfolding length_filter_index_odd .
        then have unset: "slot_at odd' (?N div 2) = None" by (simp add: slot_at_def)
        have "real (?N div 2) < real ?N / 2"
        proof -
          from False have "2 * (?N div 2) < ?N" by presburger
          then have "real (2 * (?N div 2)) < real ?N" by (simp only: of_nat_less_iff)
          then show ?thesis by simp
        qed
        then have "fft_loop (real ?N / 2) ?N even' odd' 0 (replicate ?N None) = Inl TypeError"
          using unset by (intro fft_loop_reaches_unset[where k' = "?N div 2"]) simp_all
        then show ?thesis using big ev od by (simp add: fft_rec)
      qed
    qed
  qed
qed

text \<open>The backup version on a length that is not a power of two.\<close>

lemma fft_buckup_not_power:
  "0 < length data \<Longrightarrow> \<forall>m. length data \<noteq> 2 ^ m \<Longrightarrow>
   (even (length data) \<longrightarrow> fft_buckup data = Inl TypeError) \<and>
   (fft_buckup data = Inl TypeError \<or>
    (\<exists>ys. fft_buckup data = Inr ys \<and> length ys = length data \<and> ys ! (length data - 1) = None))"
proof (induction data rule: length_induct)
  case (1 data)
  let ?N = "length data"
  let ?ev = "filter_index (\<lambda>j. j mod 2 = 0) data"
  let ?od = "filter_index (\<lambda>j. j mod 2 \<noteq> 0) data"
  from "1.prems" have "?N \<noteq> 2 ^ 0" by blast
  then have "?N \<noteq> 1" by simp
  with "1.prems"(1) have big: "\<not> ?N \<le> 1" by linarith
  show ?case
  proof (cases "even ?N")
    case True
    then obtain M where M: "?N = 2 * M" by (auto elim: evenE)
    then have lev: "length ?ev = M" by (simp add: length_filter_index_even)
    have np: "\<forall>m. M \<noteq> 2 ^ m" using "1.prems"(2) M half_not_power by simp
    have pos: "0 < M" "M < ?N" using M big by simp_all
    from lev np pos
    have a: "length ?ev < length data" "0 < length ?ev" "\<forall>m. length ?ev \<noteq> 2 ^ m"
      by simp_all
    from "1.IH"[rule_format, OF a(1) a(2) a(3)[rule_format]] lev
    have ih: "fft_buckup ?ev = Inl TypeError \<or>
       (\<exists>ys. fft_buckup ?ev = Inr ys \<and> length ys = M \<and> ys ! (M - 1) = None)"
      by simp
    have "fft_buckup data = Inl TypeError"
    proof (cases "fft_buckup ?ev")
      case (Inl e)
      then show ?thesis using big fft_buckup_error[OF Inl] by (simp add: fft_buckup_rec)
    next
      case ev: (Inr even')
      with ih have hole: "length even' = M" "even' ! (M - 1) = None" by simp_all
      show ?thesis
      proof (cases "fft_buckup ?od")
        case (Inl e)
        then show ?thesis using big ev fft_buckup_error[OF Inl] by (simp add: fft_buckup_rec)
      next
        case od: (Inr odd')
        have "slot_at even' (M - 1) = None" using hole pos by (simp add: slot_at_def)
        moreover have "real (M - 1) < real (?N div 2)" using M pos by simp
        ultimately have "fft_loop (real (?N div 2)) ?N even' odd' 0 (replicate ?N None) = Inl TypeError"
          by (intro fft_loop_reaches_unset[where k' = "M - 1"]) simp_all
        then show ?thesis using big ev od by (simp add: fft_buckup_rec)
      qed
    qed
    then show ?thesis by simp
  next
    case False
    have "fft_buckup data = Inl TypeError \<or>
      (\<exists>ys. fft_buckup data = Inr ys \<and> length ys = ?N \<and> ys ! (?N - 1) = None)"
    proof (cases "fft_buckup data")
      case (Inl e)
      then show ?thesis using fft_buckup_error[OF Inl] by simp
    next
      case (Inr ys)
      with big obtain even' odd' where run:
        "fft_loop (real (?N div 2)) ?N even' odd' 0 (replicate ?N None) = Inr ys"
        by (auto simp: fft_buckup_rec split: sum.splits)
      have le: "2 * real (?N div 2) \<le> real ?N"
        by (metis mult.commute of_nat_le_iff of_nat_mult of_nat_numeral div_times_less_eq_dividend)
      from False have "2 * (?N div 2) = ?N - 1" by presburger
      then have last: "2 * real (?N div 2) \<le> real (?N - 1)"
        by (metis of_nat_mult of_nat_numeral order_refl)
      have "ys ! (?N - 1) = replicate ?N None ! (?N - 1)"
        using fft_loop_frame[OF le run] last "1.prems"(1) by simp
      then have "ys ! (?N - 1) = None" using "1.prems"(1) by simp
      with Inr fft_buckup_length[OF Inr] show ?thesis by simp
    qed
    with False show ?thesis by simp
  qed
qed

lemma not_power_3: "\<forall>m. (3::nat) \<noteq> 2 ^ m"
  using odd_multiple_not_power[of 3 0] by simp

lemma not_power_100: "\<forall>m. (100::nat) \<noteq> 2 ^ m"
  using odd_multiple_not_power[of 25 2] by simp

lemma filter_index_even_3: "filter_index (\<lambda>j. j mod 2 = 0) [a, b, c] = [a, c]"
  by (simp add: filter_index_def upt_rec)

lemma filter_index_odd_3: "filter_index (\<lambda>j. j mod 2 = Suc 0) [a, b, c] = [b]"
  by (simp add: filter_index_def upt_rec)

lemma filter_index_even_2: "filter_index (\<lambda>j. j mod 2 = 0) [a, b] = [a]"
  by (simp add: filter_index_def upt_rec)

lemma filter_index_odd_2: "filter_index (\<lambda>j. j mod 2 = Suc 0) [a, b] = [b]"
  by (simp add: filter_index_def upt_rec)

lemma fft_buckup_2:
  "fft_buckup [a, b] =
     Inr [Some \<lparr>r = r a + r b, i = i a + i b\<rparr>, Some \<lparr>r = r a - r b, i = i a - i b\<rparr>]"
  by (simp add: fft_buckup_rec fft_buckup_small filter_index_even_2 filter_index_odd_2
      fft_loop_step[where ok = b and ek = a] fft_loop_stop slot_at_def set_slot_def
      butterfly_top_def butterfly_bottom_def)

lemma fft_buckup_3:
  "fft_buckup [a, b, c] =
     Inr [Some \<lparr>r = r a + r c + r b, i = i a + i c + i b\<rparr>,
          Some \<lparr>r = r a + r c - r b, i = i a + i c - i b\<rparr>, None]"
  by (simp add: fft_buckup_rec fft_buckup_small fft_buckup_2 filter_index_even_3 filter_index_odd_3
      fft_loop_step[where ok = b and ek = "\<lparr>r = r a + r c, i = i a + i c\<rparr>"] fft_loop_stop
      slot_at_def set_slot_def butterfly_top_def butterfly_bottom_def)

section \<open>The transform on a power-of-two length\<close>

lemma fft_loop_dense:
  assumes es: "length es = M" and os: "length os = M"
  shows "k \<le> M \<Longrightarrow> length results = 2 * M \<Longrightarrow>
     fft_loop (real M) (2 * M) (map Some es) (map Some os) k results =
       Inr (map (\<lambda>j. if k \<le> j \<and> j < M then Some (butterfly_top (2 * M) j (es ! j) (os ! j))
                      else if M + k \<le> j
                        then Some (butterfly_bottom (2 * M) (j - M) (es ! (j - M)) (os ! (j - M)))
                        else results ! j)
                [0..<2 * M])"
proof (induction k results rule: fft_loop_rounds[where half = "real M" and odd' = "map Some os"
        and even' = "map Some es" and N = "2 * M"])
  case (stop k results)
  then have k: "k = M" by simp
  have "map (\<lambda>j. if k \<le> j \<and> j < M then Some (butterfly_top (2 * M) j (es ! j) (os ! j))
                      else if M + k \<le> j
                        then Some (butterfly_bottom (2 * M) (j - M) (es ! (j - M)) (os ! (j - M)))
                        else results ! j)
                [0..<2 * M] = results"
    using stop.prems(2) k by (intro nth_equalityI) auto
  with stop.hyps show ?case by (simp add: fft_loop_stop)
next
  case (unset k results)
  then show ?case using es os by (simp add: slot_at_def)
next
  case (step k results ok ek)
  from step.hyps(1) have kM: "k < M" by simp
  with step.hyps(2,3) es os have ok: "ok = os ! k" and ek: "ek = es ! k"
    by (simp_all add: slot_at_def)
  let ?top = "butterfly_top (2 * M) k ek ok" and ?bot = "butterfly_bottom (2 * M) k ek ok"
  let ?r2 = "set_slot (set_slot results (real k) ?top) (real k + real M) ?bot"
  have r2: "?r2 = (results[k := Some ?top])[k + M := Some ?bot]"
    using kM step.prems(2) by (simp add: set_slot_index set_slot_index_plus)
  have len: "length ?r2 = 2 * M" using step.prems(2) by (simp add: r2)
  have "fft_loop (real M) (2 * M) (map Some es) (map Some os) k results =
        fft_loop (real M) (2 * M) (map Some es) (map Some os) (Suc k) ?r2"
    using step.hyps by (simp add: fft_loop_step)
  also have "\<dots> = Inr (map (\<lambda>j. if Suc k \<le> j \<and> j < M then Some (butterfly_top (2 * M) j (es ! j) (os ! j))
                      else if M + Suc k \<le> j
                        then Some (butterfly_bottom (2 * M) (j - M) (es ! (j - M)) (os ! (j - M)))
                        else ?r2 ! j)
                [0..<2 * M])"
    using step.IH kM len by simp
  also have "map (\<lambda>j. if Suc k \<le> j \<and> j < M then Some (butterfly_top (2 * M) j (es ! j) (os ! j))
                      else if M + Suc k \<le> j
                        then Some (butterfly_bottom (2 * M) (j - M) (es ! (j - M)) (os ! (j - M)))
                        else ?r2 ! j)
                [0..<2 * M] =
             map (\<lambda>j. if k \<le> j \<and> j < M then Some (butterfly_top (2 * M) j (es ! j) (os ! j))
                      else if M + k \<le> j
                        then Some (butterfly_bottom (2 * M) (j - M) (es ! (j - M)) (os ! (j - M)))
                        else results ! j)
                [0..<2 * M]"
  proof (rule map_cong[OF refl])
    fix j assume "j \<in> set [0..<2 * M]"
    then have j: "j < 2 * M" by simp
    consider "j = k" | "j = k + M" | "j \<noteq> k" "j \<noteq> k + M" by blast
    then show "(if Suc k \<le> j \<and> j < M then Some (butterfly_top (2 * M) j (es ! j) (os ! j))
                      else if M + Suc k \<le> j
                        then Some (butterfly_bottom (2 * M) (j - M) (es ! (j - M)) (os ! (j - M)))
                        else ?r2 ! j) =
          (if k \<le> j \<and> j < M then Some (butterfly_top (2 * M) j (es ! j) (os ! j))
                      else if M + k \<le> j
                        then Some (butterfly_bottom (2 * M) (j - M) (es ! (j - M)) (os ! (j - M)))
                        else results ! j)"
    proof cases
      case 1
      with kM step.prems(2) show ?thesis unfolding r2 by (simp add: ok ek)
    next
      case 2
      with kM step.prems(2) show ?thesis unfolding r2 by (simp add: ok ek)
    next
      case 3
      with kM j step.prems(2) show ?thesis unfolding r2 by auto
    qed
  qed
  finally show ?case .
qed

lemma fft_loop_butterflies:
  assumes "length es = M" and "length os = M"
  shows "fft_loop (real M) (2 * M) (map Some es) (map Some os) 0 (replicate (2 * M) None) =
         Inr (map Some (butterflies M es os))"
proof -
  have "map (\<lambda>j. if 0 \<le> j \<and> j < M then Some (butterfly_top (2 * M) j (es ! j) (os ! j))
                      else if M + 0 \<le> j
                        then Some (butterfly_bottom (2 * M) (j - M) (es ! (j - M)) (os ! (j - M)))
                        else replicate (2 * M) None ! j)
                [0..<2 * M] = map Some (butterflies M es os)"
    by (rule nth_equalityI) (auto simp: butterflies_def nth_append)
  then show ?thesis
    using fft_loop_dense[OF assms, of 0 "replicate (2 * M) None"] by simp
qed

lemma length_halves:
  assumes "length data = 2 * M"
  shows "length (filter_index (\<lambda>j. j mod 2 = 0) data) = M"
    and "length (filter_index (\<lambda>j. j mod 2 \<noteq> 0) data) = M"
  using assms unfolding length_filter_index_even length_filter_index_odd by simp_all

lemma fft_even_step:
  assumes N: "length data = 2 * M" and M: "0 < M"
    and ev: "fft (filter_index (\<lambda>j. j mod 2 = 0) data) = Inr (map Some es)"
    and od: "fft (filter_index (\<lambda>j. j mod 2 \<noteq> 0) data) = Inr (map Some os)"
  shows "fft data = Inr (map Some (butterflies M es os))"
proof -
  have les: "length es = M" using fft_length[OF ev] length_halves(1)[OF N] by simp
  have los: "length os = M" using fft_length[OF od] length_halves(2)[OF N] by simp
  have big: "\<not> length data \<le> 1" using N M by simp
  have "fft data = fft_loop (real (length data) / 2) (length data) (map Some es) (map Some os) 0
                     (replicate (length data) None)"
    by (subst fft_rec[OF big]) (simp only: ev od sum.case)
  also have "\<dots> = fft_loop (real M) (2 * M) (map Some es) (map Some os) 0 (replicate (2 * M) None)"
    by (simp add: N)
  also have "\<dots> = Inr (map Some (butterflies M es os))"
    by (rule fft_loop_butterflies[OF les los])
  finally show ?thesis .
qed

lemma fft_buckup_power_eq: "length data = 2 ^ m \<Longrightarrow> fft_buckup data = fft data"
proof (induction m arbitrary: data)
  case 0
  then show ?case by (simp add: fft_small fft_buckup_small)
next
  case (Suc m)
  then have N: "length data = 2 * 2 ^ m" by simp
  have "(1::nat) \<le> 2 ^ m" by simp
  with N have big: "\<not> length data \<le> 1" by linarith
  have ev: "fft_buckup (filter_index (\<lambda>j. j mod 2 = 0) data) =
            fft (filter_index (\<lambda>j. j mod 2 = 0) data)"
    by (rule Suc.IH) (rule length_halves(1)[OF N])
  have od: "fft_buckup (filter_index (\<lambda>j. j mod 2 \<noteq> 0) data) =
            fft (filter_index (\<lambda>j. j mod 2 \<noteq> 0) data)"
    by (rule Suc.IH) (rule length_halves(2)[OF N])
  have half: "real (length data div 2) = real (length data) / 2" by (simp add: N)
  show ?case
    by (subst fft_buckup_rec[OF big], subst fft_rec[OF big]) (simp only: ev od half)
qed

lemma fft_power_dense:
  "length data = 2 ^ m \<Longrightarrow> \<exists>cs. fft data = Inr (map Some cs) \<and> length cs = 2 ^ m"
proof (induction m arbitrary: data)
  case 0
  then have "fft data = Inr (map Some data)" by (simp add: fft_small)
  with 0 show ?case by auto
next
  case (Suc m)
  then have N: "length data = 2 * 2 ^ m" by simp
  from Suc.IH[OF length_halves(1)[OF N]] obtain es
    where es: "fft (filter_index (\<lambda>j. j mod 2 = 0) data) = Inr (map Some es)" by blast
  from Suc.IH[OF length_halves(2)[OF N]] obtain os
    where os: "fft (filter_index (\<lambda>j. j mod 2 \<noteq> 0) data) = Inr (map Some os)" by blast
  have "fft data = Inr (map Some (butterflies (2 ^ m) es os))"
    by (rule fft_even_step[OF N _ es os]) simp
  moreover have "length (butterflies (2 ^ m) es os) = 2 ^ Suc m"
    by (simp add: butterflies_def)
  ultimately show ?case by blast
qed

text \<open>
  Conjugate symmetry on real input. This is a fact of the exact arithmetic of the
  model: in IEEE double arithmetic, where \<^verbatim>\<open>Math.cos(-Math.PI / 2)\<close> is not 0, the
  program satisfies it only up to rounding.
\<close>

lemma twiddle_mirror:
  assumes "j \<le> M" and "0 < M"
  shows "cos ((- 2 * pi * real (M - j)) / real (2 * M)) = - cos ((- 2 * pi * real j) / real (2 * M))"
    and "sin ((- 2 * pi * real (M - j)) / real (2 * M)) = sin ((- 2 * pi * real j) / real (2 * M))"
proof -
  have eq: "(- 2 * pi * real (M - j)) / real (2 * M) = - pi - (- 2 * pi * real j) / real (2 * M)"
    using assms by (simp add: of_nat_diff field_simps)
  show "cos ((- 2 * pi * real (M - j)) / real (2 * M)) = - cos ((- 2 * pi * real j) / real (2 * M))"
    unfolding eq by (simp add: cos_diff)
  show "sin ((- 2 * pi * real (M - j)) / real (2 * M)) = sin ((- 2 * pi * real j) / real (2 * M))"
    unfolding eq by (simp add: sin_diff)
qed

lemma butterfly_bottom_mirror:
  assumes "j \<le> M" and "0 < M"
  shows "butterfly_bottom (2 * M) (M - j) (cconj e) (cconj c) = cconj (butterfly_top (2 * M) j e c)"
  unfolding butterfly_bottom_def butterfly_top_def cconj_def twiddle_mirror[OF assms]
  by simp

lemma butterfly_top_mirror:
  assumes "j \<le> M" and "0 < M"
  shows "butterfly_top (2 * M) (M - j) (cconj e) (cconj c) = cconj (butterfly_bottom (2 * M) j e c)"
  unfolding butterfly_bottom_def butterfly_top_def cconj_def twiddle_mirror[OF assms]
  by simp

lemma butterflies_nth_top:
  "k < M \<Longrightarrow> butterflies M es os ! k = butterfly_top (2 * M) k (es ! k) (os ! k)"
  by (simp add: butterflies_def nth_append)

lemma butterflies_nth_bottom:
  "k < M \<Longrightarrow> butterflies M es os ! (M + k) = butterfly_bottom (2 * M) k (es ! k) (os ! k)"
  by (simp add: butterflies_def nth_append)

lemma cconj_fixed: "i c = 0 \<Longrightarrow> cconj c = c"
  by (simp add: cconj_def)

text \<open>Mirror symmetry passes from the two halves to the whole.\<close>

lemma butterflies_symmetric:
  assumes M: "0 < M"
    and e0: "i (es ! 0) = 0" and o0: "i (os ! 0) = 0"
    and es: "\<forall>k. 0 < k \<and> k < M \<longrightarrow> es ! (M - k) = cconj (es ! k)"
    and os: "\<forall>k. 0 < k \<and> k < M \<longrightarrow> os ! (M - k) = cconj (os ! k)"
  shows "i (butterflies M es os ! 0) = 0"
    and "\<forall>k. 0 < k \<and> k < 2 * M \<longrightarrow>
           butterflies M es os ! (2 * M - k) = cconj (butterflies M es os ! k)"
proof -
  show "i (butterflies M es os ! 0) = 0"
    using M e0 o0 by (simp add: butterflies_nth_top butterfly_top_def)
  have mid: "i (butterflies M es os ! M) = 0"
    using M e0 o0 butterflies_nth_bottom[of 0 M es os] by (simp add: butterfly_bottom_def)
  show "\<forall>k. 0 < k \<and> k < 2 * M \<longrightarrow>
           butterflies M es os ! (2 * M - k) = cconj (butterflies M es os ! k)"
  proof (intro allI impI)
    fix k assume k: "0 < k \<and> k < 2 * M"
    consider "k < M" | "k = M" | "M < k" by linarith
    then show "butterflies M es os ! (2 * M - k) = cconj (butterflies M es os ! k)"
    proof cases
      case 1
      with k have idx: "2 * M - k = M + (M - k)" and lt: "M - k < M" and le: "k \<le> M" by simp_all
      have "butterflies M es os ! (2 * M - k) =
            butterfly_bottom (2 * M) (M - k) (es ! (M - k)) (os ! (M - k))"
        unfolding idx by (rule butterflies_nth_bottom[OF lt])
      also have "\<dots> = butterfly_bottom (2 * M) (M - k) (cconj (es ! k)) (cconj (os ! k))"
      proof -
        from k 1 have "0 < k \<and> k < M" by simp
        then have "es ! (M - k) = cconj (es ! k)" "os ! (M - k) = cconj (os ! k)"
          using es os by blast+
        then show ?thesis by (simp only:)
      qed
      also have "\<dots> = cconj (butterfly_top (2 * M) k (es ! k) (os ! k))"
        by (rule butterfly_bottom_mirror[OF le M])
      also have "\<dots> = cconj (butterflies M es os ! k)"
        using 1 by (simp add: butterflies_nth_top)
      finally show ?thesis .
    next
      case 2
      then have "2 * M - k = M" by simp
      with 2 mid show ?thesis by (simp add: cconj_fixed)
    next
      case 3
      define j where "j = k - M"
      with 3 k have j: "0 < j" "j < M" "k = M + j" "2 * M - k = M - j" "M - j < M" "j \<le> M"
        by simp_all
      have "butterflies M es os ! (2 * M - k) =
            butterfly_top (2 * M) (M - j) (es ! (M - j)) (os ! (M - j))"
        unfolding j(4) by (rule butterflies_nth_top[OF j(5)])
      also have "\<dots> = butterfly_top (2 * M) (M - j) (cconj (es ! j)) (cconj (os ! j))"
      proof -
        from j(1,2) have "0 < j \<and> j < M" by simp
        then have "es ! (M - j) = cconj (es ! j)" "os ! (M - j) = cconj (os ! j)"
          using es os by blast+
        then show ?thesis by (simp only:)
      qed
      also have "\<dots> = cconj (butterfly_bottom (2 * M) j (es ! j) (os ! j))"
        by (rule butterfly_top_mirror[OF j(6) M])
      also have "\<dots> = cconj (butterflies M es os ! k)"
        unfolding j(3) using j(2) by (simp add: butterflies_nth_bottom)
      finally show ?thesis .
    qed
  qed
qed

lemma fft_real_symmetric:
  "length data = 2 ^ m \<Longrightarrow> \<forall>c\<in>set data. i c = 0 \<Longrightarrow>
   \<exists>cs. fft data = Inr (map Some cs) \<and> length cs = 2 ^ m \<and> i (cs ! 0) = 0 \<and>
        (\<forall>k. 0 < k \<and> k < 2 ^ m \<longrightarrow> cs ! (2 ^ m - k) = cconj (cs ! k))"
proof (induction m arbitrary: data)
  case 0
  then have "fft data = Inr (map Some data)" by (simp add: fft_small)
  moreover from 0 have "i (data ! 0) = 0" by (cases data) simp_all
  ultimately show ?case using 0 by auto
next
  case (Suc m)
  let ?ev = "filter_index (\<lambda>j. j mod 2 = 0) data"
  let ?od = "filter_index (\<lambda>j. j mod 2 \<noteq> 0) data"
  from Suc.prems have N: "length data = 2 * 2 ^ m" by simp
  have sub: "c \<in> set data" if "c \<in> set (filter_index p data)" for c p
    using that by (auto simp: filter_index_def)
  have rev: "\<forall>c\<in>set ?ev. i c = 0"
  proof
    fix c assume "c \<in> set ?ev"
    then have "c \<in> set data" by (rule sub)
    with Suc.prems(2) show "i c = 0" by (rule bspec)
  qed
  have rod: "\<forall>c\<in>set ?od. i c = 0"
  proof
    fix c assume "c \<in> set ?od"
    then have "c \<in> set data" by (rule sub)
    with Suc.prems(2) show "i c = 0" by (rule bspec)
  qed
  from Suc.IH[OF length_halves(1)[OF N] rev] obtain es where
    es: "fft ?ev = Inr (map Some es)" "i (es ! 0) = 0"
        "\<forall>k. 0 < k \<and> k < 2 ^ m \<longrightarrow> es ! (2 ^ m - k) = cconj (es ! k)"
    by blast
  from Suc.IH[OF length_halves(2)[OF N] rod] obtain os where
    os: "fft ?od = Inr (map Some os)" "i (os ! 0) = 0"
        "\<forall>k. 0 < k \<and> k < 2 ^ m \<longrightarrow> os ! (2 ^ m - k) = cconj (os ! k)"
    by blast
  let ?cs = "butterflies (2 ^ m) es os"
  have pos: "(0::nat) < 2 ^ m" by simp
  have "fft data = Inr (map Some ?cs)"
    by (rule fft_even_step[OF N pos es(1) os(1)])
  moreover have "length ?cs = 2 ^ Suc m" by (simp add: butterflies_def)
  moreover have "i (?cs ! 0) = 0"
    by (rule butterflies_symmetric(1)[OF pos es(2) os(2) es(3) os(3)])
  moreover have "\<forall>k. 0 < k \<and> k < 2 ^ Suc m \<longrightarrow> ?cs ! (2 ^ Suc m - k) = cconj (?cs ! k)"
    using butterflies_symmetric(2)[OF pos es(2) os(2) es(3) os(3)] by simp
  ultimately show ?case by blast
qed

lemma twiddle_quarter:
  "cos ((- 2 * pi * real (Suc 0)) / real (2 * 2)) = 0"
  "sin ((- 2 * pi * real (Suc 0)) / real (2 * 2)) = - 1"
proof -
  have eq: "(- 2 * pi * real (Suc 0)) / real (2 * 2) = - (pi / 2)" by simp
  show "cos ((- 2 * pi * real (Suc 0)) / real (2 * 2)) = 0" unfolding eq by simp
  show "sin ((- 2 * pi * real (Suc 0)) / real (2 * 2)) = - 1" unfolding eq by simp
qed

lemma filter_index_even_4: "filter_index (\<lambda>j. j mod 2 = 0) [a, b, c, d] = [a, c]"
  by (simp add: filter_index_def upt_rec)

lemma filter_index_odd_4: "filter_index (\<lambda>j. j mod 2 \<noteq> 0) [a, b, c, d] = [b, d]"
  by (simp add: filter_index_def upt_rec)

lemma fft_2:
  "fft [a, b] =
     Inr [Some \<lparr>r = r a + r b, i = i a + i b\<rparr>, Some \<lparr>r = r a - r b, i = i a - i b\<rparr>]"
  using fft_buckup_power_eq[of "[a, b]" 1] by (simp add: fft_buckup_2)

lemma fft_4_example:
  "fft [\<lparr>r = 1, i = 0\<rparr>, \<lparr>r = 2, i = 0\<rparr>, \<lparr>r = 3, i = 0\<rparr>, \<lparr>r = 4, i = 0\<rparr>] =
     Inr [Some \<lparr>r = 10, i = 0\<rparr>, Some \<lparr>r = - 2, i = 2\<rparr>,
          Some \<lparr>r = - 2, i = 0\<rparr>, Some \<lparr>r = - 2, i = - 2\<rparr>]"
proof -
  let ?data = "[\<lparr>r = 1, i = 0\<rparr>, \<lparr>r = 2, i = 0\<rparr>, \<lparr>r = 3, i = 0\<rparr>, \<lparr>r = 4, i = 0\<rparr>]"
  have ev: "fft (filter_index (\<lambda>j. j mod 2 = 0) ?data) =
            Inr (map Some [\<lparr>r = 4, i = 0\<rparr>, \<lparr>r = - 2, i = 0\<rparr>])"
    unfolding filter_index_even_4 by (simp add: fft_2)
  have od: "fft (filter_index (\<lambda>j. j mod 2 \<noteq> 0) ?data) =
            Inr (map Some [\<lparr>r = 6, i = 0\<rparr>, \<lparr>r = - 2, i = 0\<rparr>])"
    unfolding filter_index_odd_4 by (simp add: fft_2)
  have "fft ?data = Inr (map Some (butterflies 2 [\<lparr>r = 4, i = 0\<rparr>, \<lparr>r = - 2, i = 0\<rparr>]
                                               [\<lparr>r = 6, i = 0\<rparr>, \<lparr>r = - 2, i = 0\<rparr>]))"
    by (rule fft_even_step[OF _ _ ev od]) simp_all
  also have "butterflies 2 [\<lparr>r = 4, i = 0\<rparr>, \<lparr>r = - 2, i = 0\<rparr>]
                           [\<lparr>r = 6, i = 0\<rparr>, \<lparr>r = - 2, i = 0\<rparr>] =
             [\<lparr>r = 10, i = 0\<rparr>, \<lparr>r = - 2, i = 2\<rparr>, \<lparr>r = - 2, i = 0\<rparr>, \<lparr>r = - 2, i = - 2\<rparr>]"
    by (simp add: butterflies_def upt_rec butterfly_top_def butterfly_bottom_def twiddle_quarter)
  finally show ?thesis by simp
qed

section \<open>Linearity of the transform\<close>

text \<open>
  The transform of an elementwise sum is the elementwise sum of the transforms. This too
  is a fact of the exact arithmetic of the model, which the program in IEEE double
  arithmetic satisfies only up to rounding.
\<close>

lemma map2_same: "map2 f (map g xs) (map h xs) = map (\<lambda>x. f (g x) (h x)) xs"
  by (induction xs) simp_all

lemma filter_index_signal_add:
  assumes "length a = length b"
  shows "filter_index p (signal_add a b) = signal_add (filter_index p a) (filter_index p b)"
proof -
  have "map (\<lambda>j. map2 cadd a b ! j) (filter p [0..<length a]) =
        map (\<lambda>j. cadd (a ! j) (b ! j)) (filter p [0..<length a])"
    using assms by (intro map_cong) auto
  also have "\<dots> = map2 cadd (map (\<lambda>j. a ! j) (filter p [0..<length a]))
                              (map (\<lambda>j. b ! j) (filter p [0..<length a]))"
    by (simp only: map2_same)
  finally show ?thesis using assms by (simp add: filter_index_def signal_add_def)
qed

lemma length_signal_add: "length a = length b \<Longrightarrow> length (signal_add a b) = length a"
  by (simp add: signal_add_def)

lemma slot_at_add:
  "length xs = length ys \<Longrightarrow>
   slot_at (map2 slot_add xs ys) k = slot_add (slot_at xs k) (slot_at ys k)"
  by (simp add: slot_at_def)

lemma update_add:
  "length xs = length ys \<Longrightarrow>
   (map2 slot_add xs ys)[j := Some (cadd v w)] = map2 slot_add (xs[j := Some v]) (ys[j := Some w])"
proof (cases "j < length xs")
  case True
  assume "length xs = length ys"
  with True show ?thesis by (intro nth_equalityI) (auto simp: nth_list_update)
next
  case False
  assume "length xs = length ys"
  with False show ?thesis by (simp add: list_update_beyond)
qed

lemma set_slot_add:
  assumes "length xs = length ys"
  shows "set_slot (map2 slot_add xs ys) x (cadd v w) = map2 slot_add (set_slot xs x v) (set_slot ys x w)"
  using assms by (auto simp: set_slot_def Let_def update_add)

lemma set_slot_length_eq:
  "length xs = length ys \<Longrightarrow> length (set_slot xs x v) = length (set_slot ys x w)"
  by (auto simp: set_slot_def Let_def)

lemma butterfly_top_add:
  "butterfly_top N k (cadd e1 e2) (cadd c1 c2) = cadd (butterfly_top N k e1 c1) (butterfly_top N k e2 c2)"
  by (simp add: butterfly_top_def cadd_def algebra_simps)

lemma butterfly_bottom_add:
  "butterfly_bottom N k (cadd e1 e2) (cadd c1 c2) =
     cadd (butterfly_bottom N k e1 c1) (butterfly_bottom N k e2 c2)"
  by (simp add: butterfly_bottom_def cadd_def algebra_simps)

lemma result_add_error:
  assumes "\<And>e. ra = Inl e \<Longrightarrow> e = TypeError" and "\<And>e. rb = Inl e \<Longrightarrow> e = TypeError"
    and "isl ra \<or> isl rb"
  shows "result_add ra rb = Inl TypeError"
  using assms by (cases ra; cases rb) (auto simp: result_add_def)

lemma fft_loop_add:
  assumes le: "length e1 = length e2" and lo: "length o1 = length o2"
  shows "length r1 = length r2 \<Longrightarrow>
     fft_loop half N (map2 slot_add e1 e2) (map2 slot_add o1 o2) k (map2 slot_add r1 r2) =
       result_add (fft_loop half N e1 o1 k r1) (fft_loop half N e2 o2 k r2)"
proof -
  let ?es = "map2 slot_add e1 e2" and ?os = "map2 slot_add o1 o2"
  have "\<forall>r1 r2. length r1 = length r2 \<longrightarrow>
     fft_loop half N ?es ?os k (map2 slot_add r1 r2) =
       result_add (fft_loop half N e1 o1 k r1) (fft_loop half N e2 o2 k r2)"
  proof (induction k r1 rule: fft_loop_rounds[where half = half and odd' = o1 and even' = e1
          and N = N])
    case (stop k results)
    then show ?case by (simp add: fft_loop_stop result_add_def)
  next
    case (unset k results)
    show ?case
    proof (intro allI impI)
      fix r1 r2 :: slots assume "length r1 = length r2"
      from unset(2) have "slot_at ?os k = None \<or> slot_at ?es k = None"
        using le lo by (auto simp: slot_at_add)
      then have "fft_loop half N ?es ?os k (map2 slot_add r1 r2) = Inl TypeError"
        using unset(1) by (simp add: fft_loop_unset)
      moreover have "fft_loop half N e1 o1 k r1 = Inl TypeError"
        using unset by (simp add: fft_loop_unset)
      ultimately show "fft_loop half N ?es ?os k (map2 slot_add r1 r2) =
         result_add (fft_loop half N e1 o1 k r1) (fft_loop half N e2 o2 k r2)"
        by (simp add: result_add_def)
    qed
  next
    case (step k results ok1 ek1)
    show ?case
    proof (intro allI impI)
      fix r1 r2 :: slots assume len: "length r1 = length r2"
      show "fft_loop half N ?es ?os k (map2 slot_add r1 r2) =
         result_add (fft_loop half N e1 o1 k r1) (fft_loop half N e2 o2 k r2)"
      proof (cases "slot_at o2 k = None \<or> slot_at e2 k = None")
        case True
        then have "slot_at ?os k = None \<or> slot_at ?es k = None"
          using le lo step.hyps(2,3) by (auto simp: slot_at_add)
        then have "fft_loop half N ?es ?os k (map2 slot_add r1 r2) = Inl TypeError"
          using step.hyps(1) by (simp add: fft_loop_unset)
        moreover have "fft_loop half N e2 o2 k r2 = Inl TypeError"
          using True step.hyps(1) by (simp add: fft_loop_unset)
        then have "result_add (fft_loop half N e1 o1 k r1) (fft_loop half N e2 o2 k r2) =
                   Inl TypeError"
          by (intro result_add_error) (auto dest: fft_loop_error)
        ultimately show ?thesis by simp
      next
        case False
        then obtain ok2 ek2 where s2: "slot_at o2 k = Some ok2" "slot_at e2 k = Some ek2"
          by auto
        let ?r1 = "set_slot (set_slot r1 (real k) (butterfly_top N k ek1 ok1)) (real k + half)
                     (butterfly_bottom N k ek1 ok1)"
        let ?r2 = "set_slot (set_slot r2 (real k) (butterfly_top N k ek2 ok2)) (real k + half)
                     (butterfly_bottom N k ek2 ok2)"
        have l1: "length (set_slot r1 (real k) (butterfly_top N k ek1 ok1)) =
                  length (set_slot r2 (real k) (butterfly_top N k ek2 ok2))"
          using len by (rule set_slot_length_eq)
        then have l2: "length ?r1 = length ?r2" by (rule set_slot_length_eq)
        have so: "slot_at ?os k = Some (cadd ok1 ok2)" and se: "slot_at ?es k = Some (cadd ek1 ek2)"
          using le lo step.hyps(2,3) s2 by (simp_all add: slot_at_add)
        have "fft_loop half N ?es ?os k (map2 slot_add r1 r2) =
              fft_loop half N ?es ?os (Suc k)
                (set_slot (set_slot (map2 slot_add r1 r2) (real k)
                            (butterfly_top N k (cadd ek1 ek2) (cadd ok1 ok2)))
                   (real k + half) (butterfly_bottom N k (cadd ek1 ek2) (cadd ok1 ok2)))"
          by (rule fft_loop_step[OF step.hyps(1) so se])
        also have "set_slot (set_slot (map2 slot_add r1 r2) (real k)
                            (butterfly_top N k (cadd ek1 ek2) (cadd ok1 ok2)))
                   (real k + half) (butterfly_bottom N k (cadd ek1 ek2) (cadd ok1 ok2)) =
                   map2 slot_add ?r1 ?r2"
          by (simp only: butterfly_top_add butterfly_bottom_add set_slot_add[OF len]
              set_slot_add[OF l1])
        also have "fft_loop half N ?es ?os (Suc k) (map2 slot_add ?r1 ?r2) =
              result_add (fft_loop half N e1 o1 (Suc k) ?r1) (fft_loop half N e2 o2 (Suc k) ?r2)"
          using step.IH l2 by blast
        also have "fft_loop half N e1 o1 (Suc k) ?r1 = fft_loop half N e1 o1 k r1"
          by (rule fft_loop_step[OF step.hyps(1,2,3), symmetric])
        also have "fft_loop half N e2 o2 (Suc k) ?r2 = fft_loop half N e2 o2 k r2"
          by (rule fft_loop_step[OF step.hyps(1) s2, symmetric])
        finally show ?thesis .
      qed
    qed
  qed
  then show "length r1 = length r2 \<Longrightarrow>
     fft_loop half N (map2 slot_add e1 e2) (map2 slot_add o1 o2) k (map2 slot_add r1 r2) =
       result_add (fft_loop half N e1 o1 k r1) (fft_loop half N e2 o2 k r2)"
    by blast
qed

lemma slots_add_Some: "map2 slot_add (map Some a) (map Some b) = map Some (map2 cadd a b)"
proof (induction a arbitrary: b)
  case Nil
  then show ?case by simp
next
  case (Cons x a)
  then show ?case by (cases b) simp_all
qed

lemma slots_add_unset: "map2 slot_add (replicate n None) (replicate n None) = replicate n None"
  by (induction n) simp_all

lemma fft_buckup_isl:
  assumes "\<not> length data \<le> 1"
    and "isl (fft_buckup (filter_index (\<lambda>j. j mod 2 = 0) data)) \<or>
         isl (fft_buckup (filter_index (\<lambda>j. j mod 2 \<noteq> 0) data))"
  shows "isl (fft_buckup data)"
  using assms(2) unfolding fft_buckup_rec[OF assms(1)]
  by (auto split: sum.splits)

lemma fft_buckup_add:
  "length a = length b \<Longrightarrow>
   fft_buckup (signal_add a b) = result_add (fft_buckup a) (fft_buckup b)"
proof (induction a arbitrary: b rule: length_induct)
  case (1 a)
  let ?N = "length a"
  let ?ab = "signal_add a b"
  have lab: "length ?ab = ?N" using "1.prems" by (rule length_signal_add)
  show ?case
  proof (cases "?N \<le> 1")
    case True
    with "1.prems" lab show ?thesis
      by (simp add: fft_buckup_small result_add_def slots_add_Some signal_add_def)
  next
    case False
    then have bigb: "\<not> length b \<le> 1" and bigab: "\<not> length ?ab \<le> 1"
      using "1.prems" lab by simp_all
    let ?ea = "filter_index (\<lambda>j. j mod 2 = 0) a" and ?oa = "filter_index (\<lambda>j. j mod 2 \<noteq> 0) a"
    let ?eb = "filter_index (\<lambda>j. j mod 2 = 0) b" and ?ob = "filter_index (\<lambda>j. j mod 2 \<noteq> 0) b"
    have lt: "length ?ea < ?N" "length ?oa < ?N"
      using False unfolding length_filter_index_even length_filter_index_odd by linarith+
    have leq: "length ?ea = length ?eb" "length ?oa = length ?ob"
      using "1.prems" unfolding length_filter_index_even length_filter_index_odd by simp_all
    have ev: "fft_buckup (filter_index (\<lambda>j. j mod 2 = 0) ?ab) =
              result_add (fft_buckup ?ea) (fft_buckup ?eb)"
      unfolding filter_index_signal_add[OF "1.prems"]
      using "1.IH" lt(1) leq(1) by blast
    have od: "fft_buckup (filter_index (\<lambda>j. j mod 2 \<noteq> 0) ?ab) =
              result_add (fft_buckup ?oa) (fft_buckup ?ob)"
      unfolding filter_index_signal_add[OF "1.prems"]
      using "1.IH" lt(2) leq(2) by blast
    have lhs: "fft_buckup ?ab =
      (case result_add (fft_buckup ?ea) (fft_buckup ?eb) of
         Inl e \<Rightarrow> Inl e
       | Inr even' \<Rightarrow>
          (case result_add (fft_buckup ?oa) (fft_buckup ?ob) of
             Inl e \<Rightarrow> Inl e
           | Inr odd' \<Rightarrow>
               fft_loop (real (?N div 2)) ?N even' odd' 0 (replicate ?N None)))"
      by (subst fft_buckup_rec[OF bigab]) (simp only: ev od lab)
    show ?thesis
    proof (cases "isl (fft_buckup ?ea) \<or> isl (fft_buckup ?eb) \<or>
                  isl (fft_buckup ?oa) \<or> isl (fft_buckup ?ob)")
      case True
      have e1: "result_add (fft_buckup ?ea) (fft_buckup ?eb) = Inl TypeError"
        if "isl (fft_buckup ?ea) \<or> isl (fft_buckup ?eb)"
        using that by (intro result_add_error) (auto dest: fft_buckup_error)
      have e2: "result_add (fft_buckup ?oa) (fft_buckup ?ob) = Inl TypeError"
        if "isl (fft_buckup ?oa) \<or> isl (fft_buckup ?ob)"
        using that by (intro result_add_error) (auto dest: fft_buckup_error)
      have "fft_buckup ?ab = Inl TypeError"
      proof (cases "isl (fft_buckup ?ea) \<or> isl (fft_buckup ?eb)")
        case True
        then have "result_add (fft_buckup ?ea) (fft_buckup ?eb) = Inl TypeError" by (rule e1)
        then show ?thesis unfolding lhs by (simp only: sum.case)
      next
        case False
        with \<open>isl (fft_buckup ?ea) \<or> isl (fft_buckup ?eb) \<or>
                  isl (fft_buckup ?oa) \<or> isl (fft_buckup ?ob)\<close>
        have "isl (fft_buckup ?oa) \<or> isl (fft_buckup ?ob)" by blast
        then have ro: "result_add (fft_buckup ?oa) (fft_buckup ?ob) = Inl TypeError" by (rule e2)
        show ?thesis
        proof (cases "result_add (fft_buckup ?ea) (fft_buckup ?eb)")
          case (Inl e)
          then have "e = TypeError"
            by (auto simp: result_add_def split: sum.splits dest: fft_buckup_error)
          with Inl show ?thesis unfolding lhs by (simp only: sum.case)
        next
          case (Inr even')
          show ?thesis unfolding lhs Inr ro by (simp only: sum.case)
        qed
      qed
      moreover have "isl (fft_buckup a) \<or> isl (fft_buckup b)"
        using True fft_buckup_isl[OF False] fft_buckup_isl[OF bigb] by blast
      then have "result_add (fft_buckup a) (fft_buckup b) = Inl TypeError"
        by (intro result_add_error) (auto dest: fft_buckup_error)
      ultimately show ?thesis by simp
    next
      case False
      then obtain e1 e2 o1 o2 where r:
        "fft_buckup ?ea = Inr e1" "fft_buckup ?eb = Inr e2"
        "fft_buckup ?oa = Inr o1" "fft_buckup ?ob = Inr o2"
        by (metis isl_def sum.exhaust_sel sum.collapse(2))
      have le: "length e1 = length e2" and lo: "length o1 = length o2"
        using fft_buckup_length[OF r(1)] fft_buckup_length[OF r(2)]
          fft_buckup_length[OF r(3)] fft_buckup_length[OF r(4)] leq by simp_all
      have "fft_buckup ?ab =
            fft_loop (real (?N div 2)) ?N (map2 slot_add e1 e2) (map2 slot_add o1 o2) 0
              (map2 slot_add (replicate ?N None) (replicate ?N None))"
      proof -
        have ra: "result_add (fft_buckup ?ea) (fft_buckup ?eb) = Inr (map2 slot_add e1 e2)"
          by (simp only: r result_add_def sum.case)
        have ro: "result_add (fft_buckup ?oa) (fft_buckup ?ob) = Inr (map2 slot_add o1 o2)"
          by (simp only: r result_add_def sum.case)
        show ?thesis unfolding lhs ra ro by (simp only: sum.case slots_add_unset)
      qed
      also have "\<dots> = result_add
          (fft_loop (real (?N div 2)) ?N e1 o1 0 (replicate ?N None))
          (fft_loop (real (?N div 2)) ?N e2 o2 0 (replicate ?N None))"
        by (rule fft_loop_add[OF le lo]) simp
      also have "fft_loop (real (?N div 2)) ?N e1 o1 0 (replicate ?N None) = fft_buckup a"
        by (subst fft_buckup_rec[OF \<open>\<not> ?N \<le> 1\<close>]) (simp only: r sum.case)
      also have "fft_loop (real (?N div 2)) ?N e2 o2 0 (replicate ?N None) = fft_buckup b"
        by (subst fft_buckup_rec[OF bigb]) (simp only: r sum.case "1.prems")
      finally show ?thesis .
    qed
  qed
qed

text \<open>The same for the current version.\<close>

lemma fft_isl:
  assumes "\<not> length data \<le> 1"
    and "isl (fft (filter_index (\<lambda>j. j mod 2 = 0) data)) \<or>
         isl (fft (filter_index (\<lambda>j. j mod 2 \<noteq> 0) data))"
  shows "isl (fft data)"
  using assms(2) unfolding fft_rec[OF assms(1)]
  by (auto split: sum.splits)

lemma fft_add:
  "length a = length b \<Longrightarrow>
   fft (signal_add a b) = result_add (fft a) (fft b)"
proof (induction a arbitrary: b rule: length_induct)
  case (1 a)
  let ?N = "length a"
  let ?ab = "signal_add a b"
  have lab: "length ?ab = ?N" using "1.prems" by (rule length_signal_add)
  show ?case
  proof (cases "?N \<le> 1")
    case True
    with "1.prems" lab show ?thesis
      by (simp add: fft_small result_add_def slots_add_Some signal_add_def)
  next
    case False
    then have bigb: "\<not> length b \<le> 1" and bigab: "\<not> length ?ab \<le> 1"
      using "1.prems" lab by simp_all
    let ?ea = "filter_index (\<lambda>j. j mod 2 = 0) a" and ?oa = "filter_index (\<lambda>j. j mod 2 \<noteq> 0) a"
    let ?eb = "filter_index (\<lambda>j. j mod 2 = 0) b" and ?ob = "filter_index (\<lambda>j. j mod 2 \<noteq> 0) b"
    have lt: "length ?ea < ?N" "length ?oa < ?N"
      using False unfolding length_filter_index_even length_filter_index_odd by linarith+
    have leq: "length ?ea = length ?eb" "length ?oa = length ?ob"
      using "1.prems" unfolding length_filter_index_even length_filter_index_odd by simp_all
    have ev: "fft (filter_index (\<lambda>j. j mod 2 = 0) ?ab) =
              result_add (fft ?ea) (fft ?eb)"
      unfolding filter_index_signal_add[OF "1.prems"]
      using "1.IH" lt(1) leq(1) by blast
    have od: "fft (filter_index (\<lambda>j. j mod 2 \<noteq> 0) ?ab) =
              result_add (fft ?oa) (fft ?ob)"
      unfolding filter_index_signal_add[OF "1.prems"]
      using "1.IH" lt(2) leq(2) by blast
    have lhs: "fft ?ab =
      (case result_add (fft ?ea) (fft ?eb) of
         Inl e \<Rightarrow> Inl e
       | Inr even' \<Rightarrow>
          (case result_add (fft ?oa) (fft ?ob) of
             Inl e \<Rightarrow> Inl e
           | Inr odd' \<Rightarrow>
               fft_loop (real ?N / 2) ?N even' odd' 0 (replicate ?N None)))"
      by (subst fft_rec[OF bigab]) (simp only: ev od lab)
    show ?thesis
    proof (cases "isl (fft ?ea) \<or> isl (fft ?eb) \<or>
                  isl (fft ?oa) \<or> isl (fft ?ob)")
      case True
      have e1: "result_add (fft ?ea) (fft ?eb) = Inl TypeError"
        if "isl (fft ?ea) \<or> isl (fft ?eb)"
        using that by (intro result_add_error) (auto dest: fft_error)
      have e2: "result_add (fft ?oa) (fft ?ob) = Inl TypeError"
        if "isl (fft ?oa) \<or> isl (fft ?ob)"
        using that by (intro result_add_error) (auto dest: fft_error)
      have "fft ?ab = Inl TypeError"
      proof (cases "isl (fft ?ea) \<or> isl (fft ?eb)")
        case True
        then have "result_add (fft ?ea) (fft ?eb) = Inl TypeError" by (rule e1)
        then show ?thesis unfolding lhs by (simp only: sum.case)
      next
        case False
        with \<open>isl (fft ?ea) \<or> isl (fft ?eb) \<or>
                  isl (fft ?oa) \<or> isl (fft ?ob)\<close>
        have "isl (fft ?oa) \<or> isl (fft ?ob)" by blast
        then have ro: "result_add (fft ?oa) (fft ?ob) = Inl TypeError" by (rule e2)
        show ?thesis
        proof (cases "result_add (fft ?ea) (fft ?eb)")
          case (Inl e)
          then have "e = TypeError"
            by (auto simp: result_add_def split: sum.splits dest: fft_error)
          with Inl show ?thesis unfolding lhs by (simp only: sum.case)
        next
          case (Inr even')
          show ?thesis unfolding lhs Inr ro by (simp only: sum.case)
        qed
      qed
      moreover have "isl (fft a) \<or> isl (fft b)"
        using True fft_isl[OF False] fft_isl[OF bigb] by blast
      then have "result_add (fft a) (fft b) = Inl TypeError"
        by (intro result_add_error) (auto dest: fft_error)
      ultimately show ?thesis by simp
    next
      case False
      then obtain e1 e2 o1 o2 where r:
        "fft ?ea = Inr e1" "fft ?eb = Inr e2"
        "fft ?oa = Inr o1" "fft ?ob = Inr o2"
        by (metis isl_def sum.exhaust_sel sum.collapse(2))
      have le: "length e1 = length e2" and lo: "length o1 = length o2"
        using fft_length[OF r(1)] fft_length[OF r(2)]
          fft_length[OF r(3)] fft_length[OF r(4)] leq by simp_all
      have "fft ?ab =
            fft_loop (real ?N / 2) ?N (map2 slot_add e1 e2) (map2 slot_add o1 o2) 0
              (map2 slot_add (replicate ?N None) (replicate ?N None))"
      proof -
        have ra: "result_add (fft ?ea) (fft ?eb) = Inr (map2 slot_add e1 e2)"
          by (simp only: r result_add_def sum.case)
        have ro: "result_add (fft ?oa) (fft ?ob) = Inr (map2 slot_add o1 o2)"
          by (simp only: r result_add_def sum.case)
        show ?thesis unfolding lhs ra ro by (simp only: sum.case slots_add_unset)
      qed
      also have "\<dots> = result_add
          (fft_loop (real ?N / 2) ?N e1 o1 0 (replicate ?N None))
          (fft_loop (real ?N / 2) ?N e2 o2 0 (replicate ?N None))"
        by (rule fft_loop_add[OF le lo]) simp
      also have "fft_loop (real ?N / 2) ?N e1 o1 0 (replicate ?N None) = fft a"
        by (subst fft_rec[OF \<open>\<not> ?N \<le> 1\<close>]) (simp only: r sum.case)
      also have "fft_loop (real ?N / 2) ?N e2 o2 0 (replicate ?N None) = fft b"
        by (subst fft_rec[OF bigb]) (simp only: r sum.case "1.prems")
      finally show ?thesis .
    qed
  qed
qed

section \<open>The claims\<close>

text \<open>
  Claim C5. For \<open>numPoints\<close> samples the generator returns \<open>numPoints\<close> samples, and
  its sample at every index \<open>n < numPoints\<close> is
  \<open>(sin ((n / numPoints) \<sqdot> frequency \<sqdot> 2\<pi> + phaseDegrees \<sqdot> \<pi> / 180) \<sqdot> amplitude \<sqdot>
  exp (- decayCoefficient \<sqdot> n), 0)\<close>; with amplitude 1, decay 0 and phase 0 this is
  \<open>sin (2\<pi> \<sqdot> frequency \<sqdot> n / numPoints)\<close>.
\<close>

theorem generateSineWave_sample:
  "n < numPoints \<Longrightarrow>
   length (generateSineWave numPoints frequency amplitude decayCoefficient phaseDegrees) = numPoints \<and>
   generateSineWave numPoints frequency amplitude decayCoefficient phaseDegrees ! n =
     \<lparr>r = sin ((real n / real numPoints) * frequency * 2 * pi + phaseDegrees * pi / 180)
            * amplitude * exp (- decayCoefficient * real n),
      i = 0\<rparr> \<and>
   generateSineWave numPoints frequency 1 0 0 ! n =
     \<lparr>r = sin (2 * pi * frequency * real n / real numPoints), i = 0\<rparr>"
  by (simp add: generateSineWave_def Let_def mult.commute mult.left_commute)

theorem generateSineWave_sample_witness:
  "(1::nat) < 4 \<and>
   length (generateSineWave 4 1 3 0 90) = 4 \<and>
   generateSineWave 4 1 3 0 90 ! 1 = \<lparr>r = 0, i = 0\<rparr> \<and>
   generateSineWave 4 1 1 0 0 ! 1 = \<lparr>r = 1, i = 0\<rparr>"
  using generateSineWave_sample [of 1 4 1 3 0 90] generateSineWave_sample [of 1 4 1 1 0 0]
  by simp

text \<open>
  Claim C8. With a positive sampling rate and \<open>numPoints\<close> equal to the length of the
  signal, the projection at target frequency 0 returns the signal itself, sample for
  sample: the rotation angle is 0 at every index.
\<close>

theorem projector_zero_frequency:
  "0 < samplingRate \<Longrightarrow>
   calculateDFTForFrequency data 0 (length data) samplingRate = Inr data"
proof -
  have "map (\<lambda>n. \<lparr>r = r (data ! n), i = i (data ! n)\<rparr>) [0..<length data] = data"
    by (rule nth_equalityI) simp_all
  then show ?thesis
    by (simp add: calculateDFTForFrequency_def dft_loop_ok Let_def)
qed

theorem projector_zero_frequency_witness:
  "(0::real) < 1000 \<and>
   calculateDFTForFrequency [\<lparr>r = 1, i = 2\<rparr>, \<lparr>r = - 3, i = 0\<rparr>] 0 2 1000 =
     Inr [\<lparr>r = 1, i = 2\<rparr>, \<lparr>r = - 3, i = 0\<rparr>]"
  using projector_zero_frequency [of 1000 "[\<lparr>r = 1, i = 2\<rparr>, \<lparr>r = - 3, i = 0\<rparr>]"]
  by (simp add: numeral_2_eq_2)

text \<open>
  Claim C9, amended. For a non-empty trajectory of length \<open>M\<close> the centroid of the
  current version is \<open>((\<Sum> real / M) \<sqdot> 2, (\<Sum> imag / M) \<sqdot> 2)\<close>; the centroid of the
  backup version is the plain mean \<open>(\<Sum> real / M, \<Sum> imag / M)\<close>, without the factor 2.
\<close>

theorem centroid_scale:
  "trajectory \<noteq> [] \<Longrightarrow>
   centroid trajectory =
     \<lparr>r = (sum_list (map r trajectory) / real (length trajectory)) * 2,
      i = (sum_list (map i trajectory) / real (length trajectory)) * 2\<rparr> \<and>
   centroid_buckup trajectory =
     \<lparr>r = sum_list (map r trajectory) / real (length trajectory),
      i = sum_list (map i trajectory) / real (length trajectory)\<rparr>"
  by (simp add: centroid_def centroid_buckup_def total_sum)

theorem centroid_scale_witness:
  "[\<lparr>r = 1, i = 2\<rparr>, \<lparr>r = 3, i = 4\<rparr>] \<noteq> [] \<and>
   centroid [\<lparr>r = 1, i = 2\<rparr>, \<lparr>r = 3, i = 4\<rparr>] = \<lparr>r = 4, i = 6\<rparr> \<and>
   centroid_buckup [\<lparr>r = 1, i = 2\<rparr>, \<lparr>r = 3, i = 4\<rparr>] = \<lparr>r = 2, i = 3\<rparr>"
  using centroid_scale [of "[\<lparr>r = 1, i = 2\<rparr>, \<lparr>r = 3, i = 4\<rparr>]"]
  by simp

text \<open>
  Claim C9 as stated, with the scale 2 for every centroid of the source, fails on the
  backup version: the centroid of the one-point trajectory \<open>(1, 1)\<close> is \<open>(1, 1)\<close>,
  not \<open>(2, 2)\<close>.
\<close>

theorem centroid_buckup_counterexample:
  "centroid_buckup [\<lparr>r = 1, i = 1\<rparr>] = \<lparr>r = 1, i = 1\<rparr> \<and>
   centroid_buckup [\<lparr>r = 1, i = 1\<rparr>] \<noteq> \<lparr>r = (1 / 1) * 2, i = (1 / 1) * 2\<rparr>"
  by (simp add: centroid_buckup_def total_def)

text \<open>
  Claim C10. The projector takes \<open>numPoints\<close> independently of the length of the
  signal and reads \<open>data[n]\<close> for every \<open>n < numPoints\<close>: when the signal has at least
  \<open>numPoints\<close> samples every read is in bounds and the trajectory has exactly
  \<open>numPoints\<close> samples; when the signal is shorter, a read past its end raises the
  TypeError.
\<close>

theorem projector_bounds:
  "(numPoints \<le> length data \<longrightarrow>
      (\<exists>out. calculateDFTForFrequency data targetFrequency numPoints samplingRate = Inr out \<and>
             length out = numPoints)) \<and>
   (length data < numPoints \<longrightarrow>
      calculateDFTForFrequency data targetFrequency numPoints samplingRate = Inl TypeError)"
  by (simp add: calculateDFTForFrequency_def dft_loop_ok dft_loop_err Let_def)

theorem projector_bounds_witness:
  "(1::nat) \<le> length [\<lparr>r = 1, i = 0\<rparr>, \<lparr>r = 0, i = 1\<rparr>] \<and>
   (\<exists>out. calculateDFTForFrequency [\<lparr>r = 1, i = 0\<rparr>, \<lparr>r = 0, i = 1\<rparr>] 5 1 1000 = Inr out \<and>
          length out = 1) \<and>
   length [\<lparr>r = 1, i = 0\<rparr>, \<lparr>r = 0, i = 1\<rparr>] < (3::nat) \<and>
   calculateDFTForFrequency [\<lparr>r = 1, i = 0\<rparr>, \<lparr>r = 0, i = 1\<rparr>] 5 3 1000 = Inl TypeError"
  using projector_bounds [of 1 "[\<lparr>r = 1, i = 0\<rparr>, \<lparr>r = 0, i = 1\<rparr>]" 5 1000]
        projector_bounds [of 3 "[\<lparr>r = 1, i = 0\<rparr>, \<lparr>r = 0, i = 1\<rparr>]" 5 1000]
  by simp




text \<open>
  Claim C1, amended. Neither version of \<open>fft\<close> checks the length and neither ever
  raises \<open>InvalidLength\<close>. The empty signal is returned as it is. On a non-empty signal
  whose length is not a power of two (100, for one) the current version fails with the
  TypeError of reading an unset slot; the backup version fails with the same TypeError
  when the length is even, and when the length is odd it either fails with that TypeError
  or returns an array of the length of the input whose last slot is unset.
\<close>

theorem fft_no_length_check:
  "fft data \<noteq> Inl InvalidLength \<and> fft_buckup data \<noteq> Inl InvalidLength \<and>
   fft [] = Inr [] \<and> fft_buckup [] = Inr [] \<and>
   (0 < length data \<and> (\<forall>m. length data \<noteq> 2 ^ m) \<longrightarrow>
      fft data = Inl TypeError \<and>
      (even (length data) \<longrightarrow> fft_buckup data = Inl TypeError) \<and>
      (fft_buckup data = Inl TypeError \<or>
       (\<exists>ys. fft_buckup data = Inr ys \<and> length ys = length data \<and>
             ys ! (length data - 1) = None)))"
proof (intro conjI impI)
  show "fft data \<noteq> Inl InvalidLength" using fft_error[of data InvalidLength] by auto
  show "fft_buckup data \<noteq> Inl InvalidLength"
    using fft_buckup_error[of data InvalidLength] by auto
  show "fft [] = Inr []" by (simp add: fft_small)
  show "fft_buckup [] = Inr []" by (simp add: fft_buckup_small)
next
  assume h: "0 < length data \<and> (\<forall>m. length data \<noteq> 2 ^ m)"
  then show "fft data = Inl TypeError" by (simp add: fft_not_power)
  from h have b: "(even (length data) \<longrightarrow> fft_buckup data = Inl TypeError) \<and>
      (fft_buckup data = Inl TypeError \<or>
       (\<exists>ys. fft_buckup data = Inr ys \<and> length ys = length data \<and>
             ys ! (length data - 1) = None))"
    by (intro fft_buckup_not_power) simp_all
  from b show "fft_buckup data = Inl TypeError \<or>
       (\<exists>ys. fft_buckup data = Inr ys \<and> length ys = length data \<and>
             ys ! (length data - 1) = None)" by blast
  assume "even (length data)"
  with b show "fft_buckup data = Inl TypeError" by blast
qed

theorem fft_no_length_check_witness:
  "0 < length (replicate 100 \<lparr>r = 1, i = 0\<rparr>) \<and>
   (\<forall>m. length (replicate 100 \<lparr>r = 1, i = 0\<rparr>) \<noteq> 2 ^ m) \<and>
   even (length (replicate 100 \<lparr>r = 1, i = 0\<rparr>)) \<and>
   fft (replicate 100 \<lparr>r = 1, i = 0\<rparr>) = Inl TypeError \<and>
   fft_buckup (replicate 100 \<lparr>r = 1, i = 0\<rparr>) = Inl TypeError"
  using fft_no_length_check [of "replicate 100 \<lparr>r = 1, i = 0\<rparr>"] not_power_100
  by simp

text \<open>
  Claim C1 as stated fails at length 100, where both versions raise the TypeError and not
  \<open>InvalidLength\<close>, and at length 3, where the backup version raises nothing and
  returns an array with an unset slot.
\<close>

theorem fft_no_length_check_counterexample:
  "fft (replicate 100 \<lparr>r = 1, i = 0\<rparr>) = Inl TypeError \<and>
   fft_buckup (replicate 100 \<lparr>r = 1, i = 0\<rparr>) = Inl TypeError \<and>
   fft_buckup [\<lparr>r = 1, i = 0\<rparr>, \<lparr>r = 2, i = 0\<rparr>, \<lparr>r = 3, i = 0\<rparr>] =
     Inr [Some \<lparr>r = 6, i = 0\<rparr>, Some \<lparr>r = 2, i = 0\<rparr>, None]"
proof -
  have "fft (replicate 100 \<lparr>r = 1, i = 0\<rparr>) = Inl TypeError"
    using not_power_100 by (intro fft_not_power) simp_all
  moreover have "fft_buckup (replicate 100 \<lparr>r = 1, i = 0\<rparr>) = Inl TypeError"
    using fft_buckup_not_power[of "replicate 100 \<lparr>r = 1, i = 0\<rparr>"] not_power_100 by simp
  ultimately show ?thesis by (simp add: fft_buckup_3)
qed

text \<open>
  Claim C4. On an input whose length \<open>N\<close> is a power of two, \<open>fft\<close> returns an array
  of exactly \<open>N\<close> coefficients, none of them unset; the backup version returns the same
  array.
\<close>

theorem fft_length_power:
  "length data = 2 ^ m \<Longrightarrow>
   (\<exists>cs. fft data = Inr (map Some cs) \<and> length cs = 2 ^ m) \<and> fft_buckup data = fft data"
  using fft_power_dense[of data m] fft_buckup_power_eq[of data m] by simp

theorem fft_length_power_witness:
  "length [\<lparr>r = 1, i = 0\<rparr>, \<lparr>r = 2, i = 0\<rparr>, \<lparr>r = 3, i = 0\<rparr>, \<lparr>r = 4, i = 0\<rparr>] = 2 ^ 2 \<and>
   (\<exists>cs. fft [\<lparr>r = 1, i = 0\<rparr>, \<lparr>r = 2, i = 0\<rparr>, \<lparr>r = 3, i = 0\<rparr>, \<lparr>r = 4, i = 0\<rparr>] =
            Inr (map Some cs) \<and> length cs = 4) \<and>
   fft_buckup [\<lparr>r = 1, i = 0\<rparr>, \<lparr>r = 2, i = 0\<rparr>, \<lparr>r = 3, i = 0\<rparr>, \<lparr>r = 4, i = 0\<rparr>] =
     Inr [Some \<lparr>r = 10, i = 0\<rparr>, Some \<lparr>r = - 2, i = 2\<rparr>,
          Some \<lparr>r = - 2, i = 0\<rparr>, Some \<lparr>r = - 2, i = - 2\<rparr>]"
  using fft_length_power [of "[\<lparr>r = 1, i = 0\<rparr>, \<lparr>r = 2, i = 0\<rparr>, \<lparr>r = 3, i = 0\<rparr>, \<lparr>r = 4, i = 0\<rparr>]" 2]
  by (simp add: fft_4_example)

end
